theory Spec2Isabelle
  imports Complex_Main "HOL-Library.AList"
begin

section \<open>The image-size fetcher (fetch-real-sizes.py)\<close>

text \<open>
  The script crawls the tag listing of a container registry page by page, turns every tag
  record into a size in gigabytes, and reconciles the sizes it found with the list of
  games of \<^verbatim>\<open>games.json\<close> and with the sizes written by an earlier run.

  Data is modelled at the shape the script reads it in:
  \<^item> a JSON object the script only reads with \<^verbatim>\<open>.get(key, default)\<close> is a record
    whose fields are options, \<open>None\<close> for a key that is absent;
  \<^item> a Python \<^verbatim>\<open>dict\<close> the script builds or looks ids up in is an association list
    in insertion order (\<^verbatim>\<open>d[k] = v\<close> is \<open>AList.update\<close>, \<^verbatim>\<open>k in d\<close> and
    \<^verbatim>\<open>d[k]\<close> are \<open>map_of\<close>), so that \<^verbatim>\<open>len(d)\<close> is \<open>length\<close>;
  \<^item> byte counts are Python's unbounded integers, \<open>int\<close>;
  \<^item> a Python float is modelled by the rational number it stands for (see
    \<open>size_gb\<close> below); the integer \<open>0\<close> written for an unknown size and the float
    \<open>0.0\<close> are the same number, as they are equal in Python;
  \<^item> console output, network requests and sleeps are events, listed in the order in
    which they happen; an uncaught exception is a value \<open>Inl e\<close>.
\<close>

subsection \<open>Data\<close>

type_synonym 'v dict = "(string \<times> 'v) list"

text \<open>One entry of \<^verbatim>\<open>images\<close>: \<^verbatim>\<open>img.get('size', 0)\<close>.\<close>

record image =
  img_size :: "int option"

text \<open>One entry of \<^verbatim>\<open>results\<close>: the keys \<^verbatim>\<open>name\<close>, \<^verbatim>\<open>full_size\<close>,
  \<^verbatim>\<open>images\<close>.\<close>

record tag =
  name :: "string option"
  full_size :: "int option"
  images :: "image list option"

text \<open>A response body: the keys \<^verbatim>\<open>results\<close> and \<^verbatim>\<open>next\<close> (a URL, or absent).\<close>

record page =
  results :: "tag list option"
  next_url :: "string option"

text \<open>A record of \<^verbatim>\<open>games.json\<close>; the script reads \<^verbatim>\<open>game['id']\<close> only.\<close>

record game =
  id_field :: string

datatype pyerror = OverflowError | UnboundLocalError | AttributeError | TypeError

datatype msg =
    Banner
  | FoundGames nat
  | GamesNotFound
  | Fetching
  | ErrorFetching nat
  | Retrying nat
  | FailedAfterRetries nat
  | PageFetched nat nat nat
  | FetchedTags nat
  | TagNotFound string
  | Summary nat nat nat

datatype event = Print msg | Get nat | Sleep rat

subsection \<open>Reconciliation (lines 114 to 133 of main)\<close>

record recon =
  final_sizes :: "rat dict"
  found_count :: nat
  missing_count :: nat
  warnings :: "event list"

definition recon_init :: recon where
  "recon_init = \<lparr>final_sizes = [], found_count = 0, missing_count = 0, warnings = []\<rparr>"

text \<open>The body of \<^verbatim>\<open>for game in games\<close>.\<close>

definition reconcile_game :: "rat dict \<Rightarrow> rat dict \<Rightarrow> 'a game_scheme \<Rightarrow> recon \<Rightarrow> recon" where
  "reconcile_game hub_sizes existing_sizes g st =
     (let game_id = id_field g in
      case map_of hub_sizes game_id of
        Some v \<Rightarrow>
          st\<lparr>final_sizes := AList.update game_id v (final_sizes st),
             found_count := found_count st + 1\<rparr>
      | None \<Rightarrow>
          st\<lparr>final_sizes :=
               (case map_of existing_sizes game_id of
                  Some v \<Rightarrow> AList.update game_id v (final_sizes st)
                | None \<Rightarrow> AList.update game_id 0 (final_sizes st)),
             missing_count := missing_count st + 1,
             warnings := warnings st @ [Print (TagNotFound game_id)]\<rparr>)"

fun reconcile_loop :: "'a game_scheme list \<Rightarrow> rat dict \<Rightarrow> rat dict \<Rightarrow> recon \<Rightarrow> recon" where
  "reconcile_loop [] hub_sizes existing_sizes st = st"
| "reconcile_loop (g # games) hub_sizes existing_sizes st =
     reconcile_loop games hub_sizes existing_sizes (reconcile_game hub_sizes existing_sizes g st)"

definition reconcile :: "'a game_scheme list \<Rightarrow> rat dict \<Rightarrow> rat dict \<Rightarrow> recon" where
  "reconcile games hub_sizes existing_sizes =
     reconcile_loop games hub_sizes existing_sizes recon_init"

text \<open>The precedence rule as the specification words it: the fresh value, else the value of
  the earlier run, else 0.\<close>

definition resolved :: "rat dict \<Rightarrow> rat dict \<Rightarrow> string \<Rightarrow> rat" where
  "resolved aggregated prior k =
     (case map_of aggregated k of
        Some v \<Rightarrow> v
      | None \<Rightarrow> (case map_of prior k of Some v \<Rightarrow> v | None \<Rightarrow> 0))"

subsection \<open>Bytes to gigabytes (lines 69 and 70 of fetch_all_tags)\<close>

text \<open>
  \<^verbatim>\<open>size_gb = round(full_size / (1024 ** 3), 2)\<close>, on a positive integer.

  The true division of two Python integers gives the binary64 number nearest to the
  quotient (ties to the even significand) and raises OverflowError when that number would
  be \<open>2 ^ 1024\<close> or more. The divisor is \<open>2 ^ 30\<close>, so the quotient of a positive
  \<open>full_size\<close> is \<open>full_size\<close> rounded to 53 significant bits, over \<open>2 ^ 30\<close>;
  it is never small enough to be subnormal.

  \<^verbatim>\<open>round(x, 2)\<close> picks the multiple of 0.01 nearest to the exact value of \<open>x\<close>, ties
  to the even multiple, and gives the float nearest to it. That float is modelled by the
  multiple of 0.01 itself; it is zero exactly when the multiple is.
\<close>

fun bit_length :: "nat \<Rightarrow> nat" where
  "bit_length n = (if n = 0 then 0 else Suc (bit_length (n div 2)))"

declare bit_length.simps [simp del]

definition round_to_53 :: "nat \<Rightarrow> nat" where
  "round_to_53 n =
     (let k = bit_length n - 53 in
      if k = 0 then n
      else
        let q = n div 2 ^ k; r = n mod 2 ^ k in
        (if 2 ^ (k - 1) < r \<or> (r = 2 ^ (k - 1) \<and> odd q) then q + 1 else q) * 2 ^ k)"

definition true_div_gib :: "int \<Rightarrow> pyerror + rat" where
  "true_div_gib a =
     (let m = round_to_53 (nat \<bar>a\<bar>) in
      if 2 ^ 1024 * 1024 ^ 3 \<le> m then Inl OverflowError
      else Inr (of_int (sgn a) * of_nat m / 1024 ^ 3))"

definition round_half_even :: "rat \<Rightarrow> int" where
  "round_half_even x =
     (let f = \<lfloor>x\<rfloor>; d = x - of_int f in
      if d < 1 / 2 then f
      else if 1 / 2 < d then f + 1
      else if even f then f else f + 1)"

definition py_round2 :: "rat \<Rightarrow> rat" where
  "py_round2 x = of_int (round_half_even (x * 100)) / 100"

definition size_gb :: "int \<Rightarrow> pyerror + rat" where
  "size_gb fs = (case true_div_gib fs of Inl e \<Rightarrow> Inl e | Inr x \<Rightarrow> Inr (py_round2 x))"

subsection \<open>Absorbing a page (lines 56 to 71 of fetch_all_tags)\<close>

definition image_size :: "image \<Rightarrow> int" where
  "image_size img = (case img_size img of None \<Rightarrow> 0 | Some s \<Rightarrow> s)"

text \<open>Lines 59 to 66: the value of the variable \<^verbatim>\<open>full_size\<close> when line 68 tests it.\<close>

definition effective_size :: "tag \<Rightarrow> int" where
  "effective_size t =
     (let fs = (case full_size t of None \<Rightarrow> 0 | Some n \<Rightarrow> n) in
      if fs = 0 then
        (let imgs = (case images t of None \<Rightarrow> [] | Some is \<Rightarrow> is) in
         if imgs \<noteq> [] then sum_list (map image_size imgs) else fs)
      else fs)"

text \<open>The body of \<^verbatim>\<open>for tag in results\<close>.\<close>

definition absorb_tag :: "tag \<Rightarrow> rat dict \<Rightarrow> pyerror + rat dict" where
  "absorb_tag t all_tags =
     (let tag_name = (case name t of None \<Rightarrow> [] | Some s \<Rightarrow> s);
          fs = effective_size t in
      if tag_name \<noteq> [] \<and> 0 < fs then
        (case size_gb fs of
           Inl e \<Rightarrow> Inl e
         | Inr g \<Rightarrow> Inr (AList.update tag_name g all_tags))
      else Inr all_tags)"

fun absorb :: "tag list \<Rightarrow> rat dict \<Rightarrow> pyerror + rat dict" where
  "absorb [] all_tags = Inr all_tags"
| "absorb (t # ts) all_tags =
     (case absorb_tag t all_tags of
        Inl e \<Rightarrow> Inl e
      | Inr all_tags' \<Rightarrow> absorb ts all_tags')"

text \<open>The effective size as the specification words it: the primary size if positive, else
  the sum of the sizes of the sub-records when there is a list of them, else zero.\<close>

definition spec_effective_size :: "tag \<Rightarrow> int" where
  "spec_effective_size t =
     (case full_size t of
        Some n \<Rightarrow>
          if 0 < n then n
          else (case images t of Some imgs \<Rightarrow> sum_list (map image_size imgs) | None \<Rightarrow> 0)
      | None \<Rightarrow> (case images t of Some imgs \<Rightarrow> sum_list (map image_size imgs) | None \<Rightarrow> 0))"

text \<open>
  \<^verbatim>\<open>round(size / 1024 ** 3, 2)\<close> as the specification words it, a conversion from bytes to
  gigabytes rounded to two decimals: \<open>x\<close> is the quotient as a float, within half a unit
  in the last of its 53 bits of the exact quotient and equal to it for sizes below
  \<open>2 ^ 53\<close>; \<open>v\<close> is a whole number of hundredths, as near to \<open>x\<close> as a hundredth can be,
  and the even one in a tie. A primary size is negative when the field is there and is
  below 0.
\<close>

definition two_decimal_rounding :: "rat \<Rightarrow> rat \<Rightarrow> bool" where
  "two_decimal_rounding x v =
     (let k = \<lfloor>v * 100\<rfloor> in
      of_int k = v * 100 \<and> \<bar>v - x\<bar> \<le> 1 / 200 \<and> (\<bar>v - x\<bar> = 1 / 200 \<longrightarrow> even k))"

definition float_quotient_gib :: "int \<Rightarrow> rat \<Rightarrow> bool" where
  "float_quotient_gib n x =
     (\<bar>x - of_int n / 1024 ^ 3\<bar> \<le> of_int n / 1024 ^ 3 / 2 ^ 53 \<and>
      (n < 2 ^ 53 \<longrightarrow> x = of_int n / 1024 ^ 3))"

definition primary_negative :: "tag \<Rightarrow> bool" where
  "primary_negative t = (case full_size t of None \<Rightarrow> False | Some n \<Rightarrow> n < 0)"

subsection \<open>Fetching a page (lines 30 to 50 of fetch_all_tags)\<close>

text \<open>
  What one \<^verbatim>\<open>requests.get\<close>, \<^verbatim>\<open>raise_for_status\<close> and \<^verbatim>\<open>response.json()\<close> give:
  a RequestException, or the parsed body. The network is a function of the page asked for
  and of the number of earlier attempts at that page.
\<close>

datatype response = Failed | Body page

type_synonym net = "nat \<Rightarrow> nat \<Rightarrow> response"

text \<open>How the fetch of a page ends: with a body, with the \<^verbatim>\<open>return all_tags\<close> of line
  49, or with the \<^verbatim>\<open>for\<close> loop running out without a \<^verbatim>\<open>break\<close>.\<close>

datatype fetched = Got page | GaveUp | NoBreak

text \<open>\<^verbatim>\<open>for retry in range(3)\<close>, lines 37 to 50.\<close>

fun retry_loop :: "net \<Rightarrow> nat \<Rightarrow> nat list \<Rightarrow> event list \<times> fetched" where
  "retry_loop net page [] = ([], NoBreak)"
| "retry_loop net page (retry # rest) =
     (let wait_time = 2 ^ (retry + 1);
          evs = [Print (Retrying wait_time), Sleep (of_nat wait_time), Get page] in
      case net page (retry + 1) of
        Body data \<Rightarrow> (evs, Got data)
      | Failed \<Rightarrow>
          if retry = 2 then (evs @ [Print (FailedAfterRetries page)], GaveUp)
          else (let (evs', r) = retry_loop net page rest in (evs @ evs', r)))"

definition fetch_page :: "net \<Rightarrow> nat \<Rightarrow> event list \<times> fetched" where
  "fetch_page net page =
     (case net page 0 of
        Body data \<Rightarrow> ([Get page], Got data)
      | Failed \<Rightarrow>
          (let (evs, r) = retry_loop net page [0, 1, 2] in
           ([Get page, Print (ErrorFetching page)] @ evs, r)))"

subsection \<open>The crawl (lines 19 to 83, fetch_all_tags)\<close>

text \<open>Python's truth value of \<^verbatim>\<open>data.get('next')\<close>.\<close>

definition truthy :: "string option \<Rightarrow> bool" where
  "truthy v = (case v of None \<Rightarrow> False | Some s \<Rightarrow> s \<noteq> [])"

text \<open>
  \<^verbatim>\<open>while True\<close>: the first argument bounds the number of iterations, and \<open>None\<close> is
  a crawl that has not returned within the bound. The variable \<^verbatim>\<open>data\<close> is \<open>None\<close>
  until a page has been fetched.
\<close>

fun crawl :: "nat \<Rightarrow> net \<Rightarrow> nat \<Rightarrow> page option \<Rightarrow> rat dict \<Rightarrow>
    (event list \<times> (pyerror + rat dict)) option" where
  "crawl 0 net page data all_tags = None"
| "crawl (Suc fuel) net page data all_tags =
     (case fetch_page net page of
        (evs, GaveUp) \<Rightarrow> Some (evs, Inr all_tags)
      | (evs, r) \<Rightarrow>
          (case (case r of Got d \<Rightarrow> Some d | _ \<Rightarrow> data) of
             None \<Rightarrow> Some (evs, Inl UnboundLocalError)
           | Some d \<Rightarrow>
               (let rs = (case results d of None \<Rightarrow> [] | Some rs \<Rightarrow> rs) in
                if rs = [] then Some (evs, Inr all_tags)
                else
                  (case absorb rs all_tags of
                     Inl e \<Rightarrow> Some (evs, Inl e)
                   | Inr all_tags' \<Rightarrow>
                       (let evs' = evs @ [Print (PageFetched page (length rs) (length all_tags'))] in
                        if \<not> truthy (next_url d) then Some (evs', Inr all_tags')
                        else
                          (case crawl fuel net (page + 1) (Some d) all_tags' of
                             None \<Rightarrow> None
                           | Some (evs'', res) \<Rightarrow>
                               Some (evs' @ [Sleep (1 / 2)] @ evs'', res)))))))"

definition fetch_all_tags :: "nat \<Rightarrow> net \<Rightarrow> (event list \<times> (pyerror + rat dict)) option" where
  "fetch_all_tags fuel net =
     (case crawl fuel net 1 None [] of
        None \<Rightarrow> None
      | Some (evs, res) \<Rightarrow> Some (Print Fetching # evs, res))"

text \<open>The pages requested, in the order of the requests.\<close>

fun gets :: "event list \<Rightarrow> nat list" where
  "gets [] = []"
| "gets (Get p # es) = p # gets es"
| "gets (e # es) = gets es"

text \<open>The sleeps, in order.\<close>

fun sleeps :: "event list \<Rightarrow> rat list" where
  "sleeps [] = []"
| "sleeps (Sleep s # es) = s # sleeps es"
| "sleeps (e # es) = sleeps es"

text \<open>A list of page numbers that is empty, or asks for page \<open>p\<close> one or more times, then
  for page \<open>p + 1\<close> one or more times, and so on with no page left out.\<close>

fun ascending_from :: "nat \<Rightarrow> nat list \<Rightarrow> bool" where
  "ascending_from p [] = True"
| "ascending_from p (q # qs) = (q = p \<and> (ascending_from p qs \<or> ascending_from (Suc p) qs))"

text \<open>
  The crawl as the specification words it. A page stops the crawl when its fetch ends in
  terminal failure, when it has no records, or when it carries no next indicator; the
  mapping aggregated so far is what absorbing the pages in order gives.
\<close>

definition page_records :: "page \<Rightarrow> tag list" where
  "page_records d = (case results d of None \<Rightarrow> [] | Some rs \<Rightarrow> rs)"

definition page_body :: "net \<Rightarrow> nat \<Rightarrow> page option" where
  "page_body net p = (case snd (fetch_page net p) of Got d \<Rightarrow> Some d | _ \<Rightarrow> None)"

definition stops_at :: "net \<Rightarrow> nat \<Rightarrow> bool" where
  "stops_at net p =
     (case page_body net p of
        None \<Rightarrow> True
      | Some d \<Rightarrow> page_records d = [] \<or> \<not> truthy (next_url d))"

fun absorb_pages :: "net \<Rightarrow> nat \<Rightarrow> nat \<Rightarrow> rat dict \<Rightarrow> pyerror + rat dict" where
  "absorb_pages net p 0 all_tags = Inr all_tags"
| "absorb_pages net p (Suc n) all_tags =
     (case page_body net p of
        None \<Rightarrow> Inr all_tags
      | Some d \<Rightarrow>
          (case absorb (page_records d) all_tags of
             Inl e \<Rightarrow> Inl e
           | Inr all_tags' \<Rightarrow> absorb_pages net (Suc p) n all_tags'))"

subsection \<open>The run (lines 85 to 145, main)\<close>

text \<open>
  The two files are options, \<open>None\<close> for a file that does not exist. \<open>Inr r\<close> is a run
  that has written \<open>final_sizes r\<close> to \<^verbatim>\<open>image-sizes.json\<close> and printed its summary;
  \<open>Inl e\<close> is a run stopped by the exception \<open>e\<close> before line 136, with nothing written.
  The size statistics printed after the summary (lines 147 to 155) are not modelled.
\<close>

definition main :: "nat \<Rightarrow> game list option \<Rightarrow> rat dict option \<Rightarrow> net \<Rightarrow>
    (event list \<times> (pyerror + recon)) option" where
  "main fuel games_json sizes_json net =
     (let evs0 =
        (case games_json of
           Some games \<Rightarrow>
             (let expected_ids = set (map id_field games) in
              [Print Banner, Print (FoundGames (card expected_ids))])
         | None \<Rightarrow> [Print Banner, Print GamesNotFound]) in
      case fetch_all_tags fuel net of
        None \<Rightarrow> None
      | Some (evs1, Inl e) \<Rightarrow> Some (evs0 @ evs1, Inl e)
      | Some (evs1, Inr hub_sizes) \<Rightarrow>
          (let evs2 = [Print (FetchedTags (length hub_sizes))];
               existing_sizes = (case sizes_json of Some d \<Rightarrow> d | None \<Rightarrow> []) in
           case games_json of
             None \<Rightarrow> Some (evs0 @ evs1 @ evs2, Inl UnboundLocalError)
           | Some games \<Rightarrow>
               (let r = reconcile games hub_sizes existing_sizes in
                Some (evs0 @ evs1 @ evs2 @ warnings r @
                      [Print (Summary (length games) (found_count r) (missing_count r))],
                      Inr r))))"

section \<open>Properties of the reconciliation\<close>

lemma map_of_reconcile_game:
  "map_of (final_sizes (reconcile_game hub ex g st)) k =
     (if k = id_field g then Some (resolved hub ex k) else map_of (final_sizes st) k)"
  by (simp add: reconcile_game_def resolved_def Let_def update_conv'
      split: option.splits)

lemma map_of_reconcile_loop:
  "map_of (final_sizes (reconcile_loop games hub ex st)) k =
     (if k \<in> id_field ` set games then Some (resolved hub ex k)
      else map_of (final_sizes st) k)"
  by (induction games arbitrary: st) (auto simp: map_of_reconcile_game)

lemma missing_reconcile_game:
  "missing_count (reconcile_game hub ex g st) =
     missing_count st + (if map_of hub (id_field g) = None then 1 else 0)"
  by (simp add: reconcile_game_def Let_def split: option.splits)

lemma found_reconcile_game:
  "found_count (reconcile_game hub ex g st) =
     found_count st + (if map_of hub (id_field g) = None then 0 else 1)"
  by (simp add: reconcile_game_def Let_def split: option.splits)

lemma missing_reconcile_loop:
  "missing_count (reconcile_loop games hub ex st) =
     missing_count st + length (filter (\<lambda>g. map_of hub (id_field g) = None) games)"
  by (induction games arbitrary: st) (simp_all add: missing_reconcile_game)

lemma found_reconcile_loop:
  "found_count (reconcile_loop games hub ex st) =
     found_count st + length (filter (\<lambda>g. map_of hub (id_field g) \<noteq> None) games)"
  by (induction games arbitrary: st) (simp_all add: found_reconcile_game)

lemma keys_reconcile_game:
  "set (map fst (final_sizes (reconcile_game hub ex g st))) =
     insert (id_field g) (set (map fst (final_sizes st)))"
proof -
  have "dom (map_of (final_sizes (reconcile_game hub ex g st))) =
        insert (id_field g) (dom (map_of (final_sizes st)))"
    by (auto simp: map_of_reconcile_game dom_def)
  then show ?thesis by (simp add: dom_map_of_conv_image_fst)
qed

lemma keys_reconcile_loop:
  "set (map fst (final_sizes (reconcile_loop games hub ex st))) =
     id_field ` set games \<union> set (map fst (final_sizes st))"
  by (induction games arbitrary: st) (simp_all add: keys_reconcile_game del: set_map)

lemma distinct_reconcile_game:
  "distinct (map fst (final_sizes st)) \<Longrightarrow>
     distinct (map fst (final_sizes (reconcile_game hub ex g st)))"
  by (simp add: reconcile_game_def Let_def distinct_update split: option.splits)

lemma distinct_reconcile_loop:
  "distinct (map fst (final_sizes st)) \<Longrightarrow>
     distinct (map fst (final_sizes (reconcile_loop games hub ex st)))"
  by (induction games arbitrary: st) (simp_all add: distinct_reconcile_game)

text \<open>
  Claim C1. For every id of the expected list, the final mapping holds the freshly
  aggregated value when the id is a key of the aggregation, else the value of the prior
  snapshot when the id is a key there, else 0; the missing count is the number of records
  whose id is absent from the aggregation, whether or not the snapshot had a value.
\<close>

theorem reconcile_precedence:
  "(\<forall>g \<in> set games.
      map_of (final_sizes (reconcile games aggregated prior)) (id_field g) =
        Some (case map_of aggregated (id_field g) of
                Some v \<Rightarrow> v
              | None \<Rightarrow> (case map_of prior (id_field g) of Some v \<Rightarrow> v | None \<Rightarrow> 0))) \<and>
   missing_count (reconcile games aggregated prior) =
     length (filter (\<lambda>g. map_of aggregated (id_field g) = None) games)"
proof -
  have "missing_count (reconcile games aggregated prior) =
          length (filter (\<lambda>g. map_of aggregated (id_field g) = None) games)"
    by (simp add: reconcile_def missing_reconcile_loop recon_init_def)
  then show ?thesis
    by (simp add: reconcile_def map_of_reconcile_loop resolved_def)
qed

text \<open>The scenario of the specification: expected ids a, b, c, aggregation a: 5.0, prior
  snapshot b: 3.2.\<close>

theorem reconcile_precedence_witness:
  "map_of (final_sizes (reconcile [\<lparr>id_field = ''a''\<rparr>, \<lparr>id_field = ''b''\<rparr>, \<lparr>id_field = ''c''\<rparr>]
       [(''a'', 5)] [(''b'', 32 / 10)])) = [''a'' \<mapsto> 5, ''b'' \<mapsto> 32 / 10, ''c'' \<mapsto> 0] \<and>
   final_sizes (reconcile [\<lparr>id_field = ''a''\<rparr>, \<lparr>id_field = ''b''\<rparr>, \<lparr>id_field = ''c''\<rparr>]
       [(''a'', 5)] [(''b'', 32 / 10)]) = [(''a'', 5), (''b'', 32 / 10), (''c'', 0)] \<and>
   missing_count (reconcile [\<lparr>id_field = ''a''\<rparr>, \<lparr>id_field = ''b''\<rparr>, \<lparr>id_field = ''c''\<rparr>]
       [(''a'', 5)] [(''b'', 32 / 10)]) = 2"
  using reconcile_precedence [of "[\<lparr>id_field = ''a''\<rparr>, \<lparr>id_field = ''b''\<rparr>, \<lparr>id_field = ''c''\<rparr>]"
      "[(''a'', 5)]" "[(''b'', 32 / 10)]"]
  by (simp add: reconcile_def recon_init_def reconcile_game_def Let_def fun_eq_iff)

text \<open>
  Claim C3. The keys of the final mapping are exactly the ids of the expected list: every
  expected id is a key, also one that neither the aggregation nor the prior snapshot
  knows, and an id that only the aggregation knows is not a key.
\<close>

theorem final_keys_are_expected:
  "set (map fst (final_sizes (reconcile games aggregated prior))) = id_field ` set games"
  by (simp add: reconcile_def keys_reconcile_loop recon_init_def del: set_map)

theorem final_keys_are_expected_witness:
  "set (map fst (final_sizes (reconcile [\<lparr>id_field = ''a''\<rparr>, \<lparr>id_field = ''c''\<rparr>]
       [(''a'', 5), (''z'', 7)] []))) = {''a'', ''c''}"
  using final_keys_are_expected [of "[\<lparr>id_field = ''a''\<rparr>, \<lparr>id_field = ''c''\<rparr>]"
      "[(''a'', 5), (''z'', 7)]" "[]"]
  by simp

section \<open>Properties of the conversion to gigabytes\<close>

text \<open>\<open>bit_length n\<close> is the number of binary digits of \<open>n\<close>.\<close>

lemma bit_length_le_iff: "bit_length n \<le> k \<longleftrightarrow> n < 2 ^ k"
proof (induction n arbitrary: k rule: bit_length.induct)
  case (1 n)
  show ?case
  proof (cases "n = 0")
    case True
    then show ?thesis by (simp add: bit_length.simps)
  next
    case False
    note nz = this
    show ?thesis
    proof (cases k)
      case 0
      with nz show ?thesis by (simp add: bit_length.simps [of n])
    next
      case (Suc j)
      have "bit_length n \<le> Suc j \<longleftrightarrow> bit_length (n div 2) \<le> j"
        using nz by (simp add: bit_length.simps [of n])
      also have "\<dots> \<longleftrightarrow> n div 2 < 2 ^ j"
        using "1.IH" [OF nz] .
      also have "\<dots> \<longleftrightarrow> n < 2 ^ Suc j"
        by auto
      finally show ?thesis using Suc by simp
    qed
  qed
qed

lemma bit_length_upper: "n < 2 ^ bit_length n"
  using bit_length_le_iff [of n "bit_length n"] by simp

lemma bit_length_lower: "0 < n \<Longrightarrow> 2 ^ (bit_length n - 1) \<le> n"
proof -
  assume pos: "0 < n"
  then have "bit_length n \<noteq> 0"
    by (simp add: bit_length.simps [of n])
  then have "\<not> bit_length n \<le> bit_length n - 1" by simp
  then show ?thesis
    using bit_length_le_iff [of n "bit_length n - 1"] by simp
qed

lemma round_to_53_small: "n < 2 ^ 53 \<Longrightarrow> round_to_53 n = n"
proof -
  assume "n < 2 ^ 53"
  then have "bit_length n \<le> 53" by (simp add: bit_length_le_iff)
  then show ?thesis by (simp add: round_to_53_def)
qed

lemma round_to_53_lower: "0 < n \<Longrightarrow> 2 ^ (bit_length n - 1) \<le> round_to_53 n"
proof -
  assume pos: "0 < n"
  define k where "k = bit_length n - 53"
  show ?thesis
  proof (cases "k = 0")
    case True
    then show ?thesis
      using bit_length_lower [OF pos] by (simp add: round_to_53_def k_def)
  next
    case False
    then have bl: "bit_length n - 1 = 52 + k" by (simp add: k_def)
    have "2 ^ (52 + k) \<le> n" using bit_length_lower [OF pos] bl by simp
    then have "2 ^ 52 * 2 ^ k \<le> n" by (simp add: power_add)
    then have q: "(2::nat) ^ 52 \<le> n div 2 ^ k"
      by (simp add: less_eq_div_iff_mult_less_eq)
    have a: "(2::nat) ^ (52 + k) \<le> (n div 2 ^ k) * 2 ^ k"
      unfolding power_add using q by (rule mult_le_mono1)
    have b: "(n div 2 ^ k) * 2 ^ k \<le> round_to_53 n"
      using False by (simp add: round_to_53_def k_def [symmetric] Let_def)
    from a b have "2 ^ (52 + k) \<le> round_to_53 n" by (rule order_trans)
    then show ?thesis unfolding bl .
  qed
qed

lemma round_to_53_upper: "round_to_53 n \<le> 2 ^ bit_length n"
proof -
  define k where "k = bit_length n - 53"
  show ?thesis
  proof (cases "k = 0")
    case True
    then show ?thesis
      using bit_length_upper [of n] by (simp add: round_to_53_def k_def)
  next
    case False
    then have bl: "bit_length n = 53 + k" by (simp add: k_def)
    have "n < 2 ^ (53 + k)" using bit_length_upper [of n] bl by simp
    then have "n < 2 ^ 53 * 2 ^ k" by (simp add: power_add)
    then have q: "n div 2 ^ k < (2::nat) ^ 53"
      by (simp add: less_mult_imp_div_less)
    then have "n div 2 ^ k + 1 \<le> 2 ^ 53" by simp
    then have a: "(n div 2 ^ k + 1) * 2 ^ k \<le> 2 ^ (53 + k)"
      unfolding power_add by (rule mult_le_mono1)
    have b: "round_to_53 n \<le> (n div 2 ^ k + 1) * 2 ^ k"
      using False by (simp add: round_to_53_def k_def [symmetric] Let_def)
    from b a have "round_to_53 n \<le> 2 ^ (53 + k)" by (rule order_trans)
    then show ?thesis unfolding bl .
  qed
qed


lemma round_to_53_below_top:
  assumes k: "0 < k" and bl: "bit_length n = 53 + k"
    and lt: "n + 2 ^ (k - 1) < 2 ^ (53 + k)"
  shows "round_to_53 n < 2 ^ (53 + k)"
proof -
  define P :: nat where "P = 2 ^ (k - 1)"
  define q where "q = n div 2 ^ k"
  define r where "r = n mod 2 ^ k"
  define mant where "mant = (if P < r \<or> (r = P \<and> odd q) then q + 1 else q)"
  have twoP: "(2::nat) ^ k = 2 * P"
    using k by (cases k) (simp_all add: P_def)
  have top: "(2::nat) ^ (53 + k) = 2 ^ 53 * (2 * P)"
    by (simp add: power_add twoP)
  have n_eq: "n = q * (2 * P) + r"
    unfolding q_def r_def twoP [symmetric] by (rule div_mult_mod_eq [symmetric])
  have r_lt: "r < 2 * P"
    by (simp add: r_def twoP [symmetric])
  have n_lt: "n + P < 2 ^ 53 * (2 * P)"
    using lt by (simp only: top P_def)
  have q_lt: "q * (2 * P) < 2 ^ 53 * (2 * P)"
    using n_eq n_lt by linarith
  have up: "(q + 1) * (2 * P) < 2 ^ 53 * (2 * P)" if "P \<le> r"
  proof -
    have "(q + 1) * (2 * P) = q * (2 * P) + 2 * P" by simp
    then show ?thesis using n_eq n_lt that by linarith
  qed
  have "mant * (2 * P) < 2 ^ 53 * (2 * P)"
    using q_lt up by (auto simp: mant_def)
  moreover have "round_to_53 n = mant * 2 ^ k"
    using k bl by (simp add: round_to_53_def Let_def mant_def q_def r_def P_def)
  ultimately show ?thesis by (simp only: top twoP)
qed

lemma round_to_53_no_overflow:
  assumes "n + 2 ^ 1000 < 2 ^ 1054"
  shows "round_to_53 n < 2 ^ 1054"
proof (cases "bit_length n \<le> 1053")
  case True
  then have "(2::nat) ^ bit_length n \<le> 2 ^ 1053"
    by (rule power_increasing) simp
  moreover have "(2::nat) ^ 1053 < 2 ^ 1054"
    by (rule power_strict_increasing) simp_all
  ultimately show ?thesis
    using round_to_53_upper [of n] by linarith
next
  case False
  have "n < 2 ^ 1054" using assms by linarith
  then have "bit_length n \<le> 1054" by (simp only: bit_length_le_iff)
  with False have bl: "bit_length n = 53 + 1001" by simp
  have "round_to_53 n < 2 ^ (53 + 1001)"
    by (rule round_to_53_below_top [OF _ bl]) (use assms in simp_all)
  then show ?thesis by simp
qed


lemma round_half_even_zero_iff:
  assumes "0 \<le> x"
  shows "round_half_even x = 0 \<longleftrightarrow> x \<le> 1 / 2"
proof (cases "x < 1")
  case True
  with assms have "\<lfloor>x\<rfloor> = 0" by (simp add: floor_eq_iff)
  then show ?thesis by (auto simp: round_half_even_def Let_def)
next
  case False
  then have "1 \<le> \<lfloor>x\<rfloor>" by (simp add: le_floor_iff)
  moreover have "\<lfloor>x\<rfloor> \<le> round_half_even x"
    by (simp add: round_half_even_def Let_def)
  ultimately have "round_half_even x \<noteq> 0" by linarith
  then show ?thesis using False by simp
qed

lemma size_gb_pos:
  assumes "0 < n"
  shows "size_gb n =
     (if 2 ^ 1024 * 1024 ^ 3 \<le> round_to_53 (nat n) then Inl OverflowError
      else Inr (py_round2 (of_nat (round_to_53 (nat n)) / 1024 ^ 3)))"
proof -
  have "\<bar>n\<bar> = n" and "sgn n = 1" using assms by simp_all
  then show ?thesis by (simp add: size_gb_def true_div_gib_def Let_def)
qed

lemma size_gb_zero_iff:
  assumes "0 < n"
  shows "size_gb n = Inr 0 \<longleftrightarrow> n \<le> 5368709"
proof (cases "n < 2 ^ 53")
  case True
  have "size_gb n = Inr (py_round2 (of_int n / 1024 ^ 3))"
    using assms True by (simp add: size_gb_pos round_to_53_small)
  moreover have "py_round2 (of_int n / 1024 ^ 3) = 0 \<longleftrightarrow> n \<le> 5368709"
  proof -
    have "(0::rat) \<le> of_int n / 1024 ^ 3 * 100" using assms by simp
    then have "round_half_even (of_int n / 1024 ^ 3 * 100) = 0 \<longleftrightarrow>
        (of_int n / 1024 ^ 3 * 100 :: rat) \<le> 1 / 2"
      by (rule round_half_even_zero_iff)
    also have "\<dots> \<longleftrightarrow> (of_int n :: rat) * 200 \<le> 1024 ^ 3"
      by (simp add: field_simps)
    also have "\<dots> \<longleftrightarrow> (of_int (n * 200) :: rat) \<le> of_int (1024 ^ 3)"
      by simp
    also have "\<dots> \<longleftrightarrow> n * 200 \<le> 1024 ^ 3"
      by (simp only: of_int_le_iff)
    also have "\<dots> \<longleftrightarrow> n \<le> 5368709" by simp linarith
    finally show ?thesis by (simp add: py_round2_def)
  qed
  ultimately show ?thesis by simp
next
  case False
  define m where "m = round_to_53 (nat n)"
  have big: "2 ^ 53 \<le> nat n" using False assms by simp
  then have "\<not> bit_length (nat n) \<le> 53"
    by (simp add: bit_length_le_iff)
  then have "53 \<le> bit_length (nat n) - 1" by simp
  then have "(2::nat) ^ 53 \<le> 2 ^ (bit_length (nat n) - 1)"
    by (rule power_increasing) simp
  moreover have "2 ^ (bit_length (nat n) - 1) \<le> m"
    unfolding m_def using big by (intro round_to_53_lower) simp
  ultimately have m_big: "2 ^ 53 \<le> m" by (rule order_trans)
  have "size_gb n \<noteq> Inr 0"
  proof (cases "2 ^ 1024 * 1024 ^ 3 \<le> m")
    case True
    then show ?thesis using assms by (simp add: size_gb_pos m_def [symmetric])
  next
    case ok: False
    have "(1::rat) \<le> of_nat m / 1024 ^ 3 * 100"
    proof -
      have "(of_nat (2 ^ 53)::rat) \<le> of_nat m" using m_big by (simp only: of_nat_le_iff)
      then show ?thesis by (simp add: field_simps)
    qed
    then have "\<not> (of_nat m / 1024 ^ 3 * 100 :: rat) \<le> 1 / 2" by simp
    moreover have "(0::rat) \<le> of_nat m / 1024 ^ 3 * 100" by simp
    ultimately have "round_half_even (of_nat m / 1024 ^ 3 * 100) \<noteq> 0"
      by (simp add: round_half_even_zero_iff)
    then show ?thesis
      using ok assms by (simp add: size_gb_pos m_def [symmetric] py_round2_def)
  qed
  moreover have "\<not> n \<le> 5368709" using False by simp
  ultimately show ?thesis by simp
qed

lemma size_gb_no_overflow:
  assumes "0 < n" and "n < 2 ^ 1054 - 2 ^ 1000"
  shows "\<exists>v. size_gb n = Inr v"
proof -
  have "nat n + 2 ^ 1000 < 2 ^ 1054"
    using assms by (simp add: nat_less_iff)
  then have "round_to_53 (nat n) < 2 ^ 1054"
    by (rule round_to_53_no_overflow)
  then have "\<not> (2 ^ 1024 * 1024 ^ 3 \<le> round_to_53 (nat n))" by simp
  then show ?thesis using assms by (simp add: size_gb_pos)
qed


lemma size_gb_one: "size_gb 1 = Inr 0"
  using size_gb_zero_iff [of 1] by simp

lemma round_to_53_error: "\<bar>int (round_to_53 n) - int n\<bar> * 2 ^ 53 \<le> int n"
proof (cases "bit_length n - 53 = 0")
  case True
  then show ?thesis by (simp add: round_to_53_def)
next
  case False
  define k where "k = bit_length n - 53"
  define P :: nat where "P = 2 ^ (k - 1)"
  define q where "q = n div 2 ^ k"
  define r where "r = n mod 2 ^ k"
  define mant where "mant = (if P < r \<or> (r = P \<and> odd q) then q + 1 else q)"
  have k: "0 < k" using False by (simp add: k_def)
  have twoP: "(2::nat) ^ k = 2 * P"
    using k by (cases k) (simp_all add: P_def)
  have n_eq: "n = q * (2 * P) + r"
    unfolding q_def r_def twoP [symmetric] by (rule div_mult_mod_eq [symmetric])
  have r_lt: "r < 2 * P"
    by (simp add: r_def twoP [symmetric])
  have "round_to_53 n = mant * 2 ^ k"
    using k by (simp add: round_to_53_def Let_def mant_def q_def r_def P_def k_def)
  then have m: "round_to_53 n = mant * (2 * P)"
    by (simp only: twoP)
  have pos: "0 < n"
    using False by (cases "n = 0") (simp_all add: bit_length.simps [of 0])
  have bl: "bit_length n - 1 = 52 + k" using k by (simp add: k_def)
  have "2 ^ (52 + k) \<le> n" using bit_length_lower [OF pos] bl by simp
  moreover have "(2::nat) ^ (52 + k) = 2 ^ 53 * P"
    using k by (cases k) (simp_all add: P_def power_add)
  ultimately have low: "2 ^ 53 * P \<le> n" by simp
  have err: "\<bar>int (mant * (2 * P)) - int n\<bar> \<le> int P"
  proof (cases "P < r \<or> (r = P \<and> odd q)")
    case True
    then have "mant = q + 1" unfolding mant_def by (rule if_P)
    then have "mant * (2 * P) = q * (2 * P) + 2 * P" by simp
    moreover from True have "P \<le> r" by auto
    ultimately show ?thesis using n_eq r_lt by linarith
  next
    case False
    then have "mant = q" unfolding mant_def by (rule if_not_P)
    then have "mant * (2 * P) = q * (2 * P)" by simp
    moreover from False have "r \<le> P" by auto
    ultimately show ?thesis using n_eq by linarith
  qed
  have "\<bar>int (round_to_53 n) - int n\<bar> * 2 ^ 53 \<le> int P * 2 ^ 53"
    unfolding m using err by (rule mult_right_mono) simp
  also have "\<dots> \<le> int n" using low by (simp add: mult.commute of_nat_le_iff [symmetric] del: of_nat_le_iff)
  finally show ?thesis .
qed

lemma py_round2_rounds: "two_decimal_rounding x (py_round2 x)"
proof -
  define y where "y = x * 100"
  define f where "f = \<lfloor>y\<rfloor>"
  define d where "d = y - of_int f"
  have d0: "0 \<le> d" and d1: "d < 1"
    unfolding d_def f_def by linarith+
  have y: "y = of_int f + d" by (simp add: d_def)
  define k where "k = round_half_even y"
  have kk: "(k = f \<and> d < 1 / 2) \<or> (k = f + 1 \<and> 1 / 2 < d) \<or>
      (d = 1 / 2 \<and> even k \<and> (k = f \<or> k = f + 1))"
    unfolding k_def round_half_even_def Let_def f_def [symmetric] d_def [symmetric]
    by (auto simp: not_less)
  have v: "py_round2 x = of_int k / 100"
    by (simp add: py_round2_def k_def y_def)
  have dist: "of_int k / 100 - x = (of_int k - of_int f - d) / 100"
    by (simp add: d_def y_def field_simps)
  have "\<bar>of_int k / 100 - x\<bar> \<le> 1 / 200 \<and> (\<bar>of_int k / 100 - x\<bar> = 1 / 200 \<longrightarrow> even k)"
    using kk d0 d1 unfolding dist by (auto simp: abs_if field_simps)
  then show ?thesis
    unfolding two_decimal_rounding_def Let_def v by simp
qed

lemma size_gb_rounds:
  assumes "0 < n" and "size_gb n = Inr v"
  shows "\<exists>x. float_quotient_gib n x \<and> two_decimal_rounding x v"
proof -
  define m where "m = round_to_53 (nat n)"
  define x :: rat where "x = of_nat m / 1024 ^ 3"
  from assms have v: "v = py_round2 x"
    by (auto simp: size_gb_pos m_def x_def split: if_splits)
  have e: "\<bar>int m - n\<bar> * 2 ^ 53 \<le> n"
    using round_to_53_error [of "nat n"] assms(1) by (simp add: m_def)
  have "\<bar>x - of_int n / 1024 ^ 3\<bar> = of_int \<bar>int m - n\<bar> / 1024 ^ 3"
    by (simp add: x_def diff_divide_distrib [symmetric])
  also have "\<dots> \<le> of_int n / 2 ^ 53 / 1024 ^ 3"
  proof -
    have "(of_int (\<bar>int m - n\<bar> * 2 ^ 53) :: rat) \<le> of_int n"
      using e by (simp only: of_int_le_iff)
    then have "(of_int \<bar>int m - n\<bar> :: rat) \<le> of_int n / 2 ^ 53"
      by (simp add: field_simps)
    then show ?thesis by (rule divide_right_mono) simp
  qed
  finally have q1: "\<bar>x - of_int n / 1024 ^ 3\<bar> \<le> of_int n / 1024 ^ 3 / 2 ^ 53"
    by (simp add: field_simps)
  have q2: "x = of_int n / 1024 ^ 3" if "n < 2 ^ 53"
  proof -
    from that assms(1) have "nat n < 2 ^ 53" by simp
    then have "m = nat n" unfolding m_def by (rule round_to_53_small)
    with assms(1) show ?thesis by (simp add: x_def)
  qed
  have "float_quotient_gib n x"
    using q1 q2 by (simp add: float_quotient_gib_def)
  moreover have "two_decimal_rounding x v"
    unfolding v by (rule py_round2_rounds)
  ultimately show ?thesis by blast
qed


lemma round_to_53_at_top:
  assumes k: "0 < k" and bl: "bit_length n = 53 + k"
    and ge: "2 ^ (53 + k) \<le> n + 2 ^ (k - 1)"
  shows "2 ^ (53 + k) \<le> round_to_53 n"
proof -
  define P :: nat where "P = 2 ^ (k - 1)"
  define q where "q = n div 2 ^ k"
  define r where "r = n mod 2 ^ k"
  define mant where "mant = (if P < r \<or> (r = P \<and> odd q) then q + 1 else q)"
  have Ppos: "0 < P" by (simp add: P_def)
  have twoP: "(2::nat) ^ k = 2 * P"
    using k by (cases k) (simp_all add: P_def)
  have top: "(2::nat) ^ (53 + k) = 2 ^ 53 * (2 * P)"
    by (simp add: power_add twoP)
  have n_eq: "n = q * (2 * P) + r"
    unfolding q_def r_def twoP [symmetric] by (rule div_mult_mod_eq [symmetric])
  have r_lt: "r < 2 * P"
    by (simp add: r_def twoP [symmetric])
  have n_lt: "n < 2 ^ 53 * (2 * P)"
    using bit_length_upper [of n] by (simp only: bl top)
  have n_ge: "2 ^ 53 * (2 * P) \<le> n + P"
    using ge by (simp only: top P_def)
  have "q * (2 * P) < 2 ^ 53 * (2 * P)" using n_eq n_lt by linarith
  then have q_lt: "q < 2 ^ 53" by simp
  have "\<not> q + 2 \<le> 2 ^ 53"
  proof
    assume "q + 2 \<le> 2 ^ 53"
    then have "(q + 2) * (2 * P) \<le> 2 ^ 53 * (2 * P)" by (rule mult_le_mono1)
    moreover have "(q + 2) * (2 * P) = q * (2 * P) + 4 * P" by simp
    ultimately show False using n_eq n_ge r_lt Ppos by linarith
  qed
  with q_lt have q: "q + 1 = 2 ^ 53" by linarith
  then have "odd q"
    by (metis even_plus_one_iff even_numeral even_power zero_less_numeral)
  moreover have "P \<le> r"
  proof -
    have "(q + 1) * (2 * P) = q * (2 * P) + 2 * P" by simp
    then have "2 ^ 53 * (2 * P) = q * (2 * P) + 2 * P" by (simp only: q)
    then show ?thesis using n_eq n_ge by linarith
  qed
  ultimately have "P < r \<or> (r = P \<and> odd q)" by auto
  then have "mant = q + 1" unfolding mant_def by (rule if_P)
  moreover have "round_to_53 n = mant * 2 ^ k"
    using k bl by (simp add: round_to_53_def Let_def mant_def q_def r_def P_def)
  ultimately have "round_to_53 n = 2 ^ 53 * (2 * P)" by (simp only: q twoP)
  then show ?thesis by (simp only: top)
qed

lemma round_to_53_overflows:
  assumes "2 ^ 1054 \<le> n + 2 ^ 1000"
  shows "2 ^ 1054 \<le> round_to_53 n"
proof (cases "bit_length n \<le> 1054")
  case False
  then have "1054 \<le> bit_length n - 1" by simp
  then have "(2::nat) ^ 1054 \<le> 2 ^ (bit_length n - 1)"
    by (rule power_increasing) simp
  moreover have "0 < n" using False by (cases "n = 0") (simp_all add: bit_length.simps [of 0])
  then have "2 ^ (bit_length n - 1) \<le> round_to_53 n" by (rule round_to_53_lower)
  ultimately show ?thesis by (rule order_trans)
next
  case True
  have "\<not> bit_length n \<le> 1053"
  proof
    assume "bit_length n \<le> 1053"
    then have "n < 2 ^ 1053" by (simp only: bit_length_le_iff)
    with assms show False by simp
  qed
  with True have bl: "bit_length n = 53 + 1001" by simp
  have "2 ^ (53 + 1001) \<le> round_to_53 n"
    by (rule round_to_53_at_top [OF _ bl]) (use assms in simp_all)
  then show ?thesis by simp
qed

lemma size_gb_overflows:
  assumes "2 ^ 1054 - 2 ^ 1000 \<le> n"
  shows "size_gb n = Inl OverflowError"
proof -
  have pos: "0 < n" using assms by simp
  have "2 ^ 1054 \<le> nat n + 2 ^ 1000"
    using assms by (simp add: le_nat_iff)
  then have "2 ^ 1054 \<le> round_to_53 (nat n)"
    by (rule round_to_53_overflows)
  then have "2 ^ 1024 * 1024 ^ 3 \<le> round_to_53 (nat n)" by simp
  then show ?thesis using pos by (simp add: size_gb_pos)
qed

section \<open>Properties of the aggregation\<close>

lemma effective_size_nonneg_primary:
  "(\<forall>n. full_size t = Some n \<longrightarrow> 0 \<le> n) \<Longrightarrow> effective_size t = spec_effective_size t"
  by (auto simp: effective_size_def spec_effective_size_def Let_def split: option.splits)

lemma effective_size_positive:
  "0 < effective_size t \<Longrightarrow> effective_size t = spec_effective_size t"
  by (auto simp: effective_size_def spec_effective_size_def Let_def split: option.splits if_splits)

lemma absorb_tag_cases:
  "absorb_tag t m =
     (case name t of
        None \<Rightarrow> Inr m
      | Some n \<Rightarrow>
          if n \<noteq> [] \<and> 0 < effective_size t then
            (case size_gb (effective_size t) of
               Inl e \<Rightarrow> Inl e
             | Inr v \<Rightarrow> Inr (AList.update n v m))
          else Inr m)"
  by (simp add: absorb_tag_def Let_def split: option.splits)

text \<open>3,221,225,472 bytes are 3.00 GB.\<close>

lemma size_gb_3gib: "size_gb 3221225472 = Inr 3"
  by (simp add: size_gb_pos round_to_53_small py_round2_def round_half_even_def)

text \<open>134,217,728 bytes are an eighth of a gigabyte, a tie between 0.12 and 0.13.\<close>

lemma size_gb_eighth: "size_gb 134217728 = Inr (3 / 25)"
proof -
  have "\<lfloor>25 / 2 :: rat\<rfloor> = 12" by (simp add: floor_eq_iff)
  then show ?thesis
    by (simp add: size_gb_pos round_to_53_small py_round2_def round_half_even_def Let_def)
qed

lemma spec_effective_size_code:
  "\<not> primary_negative t \<Longrightarrow> effective_size t = spec_effective_size t"
  by (rule effective_size_nonneg_primary) (auto simp: primary_negative_def)

lemma negative_primary_not_stored: "primary_negative t \<Longrightarrow> absorb_tag t m = Inr m"
  by (auto simp: absorb_tag_cases primary_negative_def effective_size_def split: option.splits)

text \<open>
  Claim C2, as amended. A record with a name, a primary size that is not negative and a
  positive effective size is inserted under its name with the value
  \<^verbatim>\<open>round(effective_size / 1024 ** 3, 2)\<close>: the quotient as a float, rounded to the
  nearest hundredth, ties to the even hundredth. The effective size is the primary size
  when positive, else the sum of the sizes of the sub-records when the record has a list
  of them, else 0. A record whose name is empty or missing, whose primary size is
  negative, or whose effective size is 0 or less leaves the mapping as it is. From
  \<open>2 ^ 1054 - 2 ^ 1000\<close> bytes on the division raises OverflowError and nothing is
  inserted.
\<close>

theorem absorbed_value_is_rounded_gb:
  "(\<forall>nm. name t = Some nm \<and> nm \<noteq> [] \<and> \<not> primary_negative t \<and>
         0 < spec_effective_size t \<and> spec_effective_size t < 2 ^ 1054 - 2 ^ 1000 \<longrightarrow>
      (\<exists>v x. absorb_tag t m = Inr (AList.update nm v m) \<and>
             float_quotient_gib (spec_effective_size t) x \<and> two_decimal_rounding x v)) \<and>
   (name t = None \<or> name t = Some [] \<or> primary_negative t \<or> spec_effective_size t \<le> 0 \<longrightarrow>
      absorb_tag t m = Inr m) \<and>
   (\<forall>nm. name t = Some nm \<and> nm \<noteq> [] \<and> \<not> primary_negative t \<and>
         2 ^ 1054 - 2 ^ 1000 \<le> spec_effective_size t \<longrightarrow>
      absorb_tag t m = Inl OverflowError)"
proof (intro conjI allI impI)
  fix nm
  assume a: "name t = Some nm \<and> nm \<noteq> [] \<and> \<not> primary_negative t \<and>
         0 < spec_effective_size t \<and> spec_effective_size t < 2 ^ 1054 - 2 ^ 1000"
  then have e: "effective_size t = spec_effective_size t"
    by (intro spec_effective_size_code) simp
  from a obtain v where v: "size_gb (spec_effective_size t) = Inr v"
    using size_gb_no_overflow [of "spec_effective_size t"] by auto
  with a obtain x where "float_quotient_gib (spec_effective_size t) x" "two_decimal_rounding x v"
    using size_gb_rounds [of "spec_effective_size t" v] by auto
  moreover from a e v have "absorb_tag t m = Inr (AList.update nm v m)"
    by (simp add: absorb_tag_cases)
  ultimately show "\<exists>v x. absorb_tag t m = Inr (AList.update nm v m) \<and>
             float_quotient_gib (spec_effective_size t) x \<and> two_decimal_rounding x v"
    by blast
next
  assume a: "name t = None \<or> name t = Some [] \<or> primary_negative t \<or> spec_effective_size t \<le> 0"
  show "absorb_tag t m = Inr m"
  proof (cases "primary_negative t")
    case True
    then show ?thesis by (rule negative_primary_not_stored)
  next
    case False
    then have "effective_size t = spec_effective_size t" by (rule spec_effective_size_code)
    with a False show ?thesis by (auto simp: absorb_tag_cases split: option.splits)
  qed
next
  fix nm
  assume a: "name t = Some nm \<and> nm \<noteq> [] \<and> \<not> primary_negative t \<and>
         2 ^ 1054 - 2 ^ 1000 \<le> spec_effective_size t"
  then have e: "effective_size t = spec_effective_size t"
    by (intro spec_effective_size_code) simp
  from a have "size_gb (spec_effective_size t) = Inl OverflowError"
    by (intro size_gb_overflows) simp
  moreover from a have "0 < spec_effective_size t" by simp
  ultimately show "absorb_tag t m = Inl OverflowError"
    using a e by (simp add: absorb_tag_cases)
qed

text \<open>The claim as stated fails: with a primary size of -1 and an image of 3 GiB the
  effective size of the claim is 3 GiB, to be stored as 3.0; line 62 does not fall back
  to the images for a primary size other than 0, and nothing is stored.\<close>

theorem absorbed_value_is_rounded_gb_counterexample:
  "spec_effective_size \<lparr>name = Some ''doom'', full_size = Some (- 1),
       images = Some [\<lparr>img_size = Some 3221225472\<rparr>]\<rparr> = 3221225472 \<and>
   size_gb 3221225472 = Inr 3 \<and>
   absorb_tag \<lparr>name = Some ''doom'', full_size = Some (- 1),
       images = Some [\<lparr>img_size = Some 3221225472\<rparr>]\<rparr> [] = Inr []"
  by (simp add: spec_effective_size_def image_size_def size_gb_3gib absorb_tag_cases
      effective_size_def)

theorem absorbed_value_is_rounded_gb_witness:
  "absorb_tag \<lparr>name = Some ''doom'', full_size = Some 0,
       images = Some [\<lparr>img_size = Some 134217000\<rparr>, \<lparr>img_size = None\<rparr>, \<lparr>img_size = Some 728\<rparr>]\<rparr>
     [(''doom'', 1)] = Inr [(''doom'', 3 / 25)] \<and>
   float_quotient_gib 134217728 (1 / 8) \<and>
   two_decimal_rounding (1 / 8) (3 / 25) \<and>
   \<not> two_decimal_rounding (1 / 8) (13 / 100) \<and>
   \<not> two_decimal_rounding (1 / 8) (1 / 8) \<and>
   absorb_tag \<lparr>name = Some [], full_size = Some 3221225472, images = None\<rparr> [(''doom'', 1)] =
     Inr [(''doom'', 1)] \<and>
   absorb_tag \<lparr>name = None, full_size = Some 3221225472, images = None\<rparr> [(''doom'', 1)] =
     Inr [(''doom'', 1)] \<and>
   absorb_tag \<lparr>name = Some ''doom'', full_size = Some (- 1),
       images = Some [\<lparr>img_size = Some 3221225472\<rparr>]\<rparr> [(''doom'', 1)] = Inr [(''doom'', 1)]"
proof -
  have f1: "\<lfloor>25 / 2 :: rat\<rfloor> = 12" by (simp add: floor_eq_iff)
  have r: "two_decimal_rounding (1 / 8) (3 / 25)" "\<not> two_decimal_rounding (1 / 8) (13 / 100)"
    "\<not> two_decimal_rounding (1 / 8) (1 / 8)"
    by (simp_all add: two_decimal_rounding_def f1)
  have q: "float_quotient_gib 134217728 (1 / 8)"
    by (simp add: float_quotient_gib_def)
  show ?thesis
    using absorbed_value_is_rounded_gb [of "\<lparr>name = Some ''doom'', full_size = Some 0,
       images = Some [\<lparr>img_size = Some 134217000\<rparr>, \<lparr>img_size = None\<rparr>, \<lparr>img_size = Some 728\<rparr>]\<rparr>"
       "[(''doom'', 1)]"]
      absorbed_value_is_rounded_gb [of "\<lparr>name = Some [], full_size = Some 3221225472, images = None\<rparr>"
       "[(''doom'', 1)]"]
      absorbed_value_is_rounded_gb [of "\<lparr>name = None, full_size = Some 3221225472, images = None\<rparr>"
       "[(''doom'', 1)]"]
      absorbed_value_is_rounded_gb [of "\<lparr>name = Some ''doom'', full_size = Some (- 1),
       images = Some [\<lparr>img_size = Some 3221225472\<rparr>]\<rparr>" "[(''doom'', 1)]"]
      r q
    by (simp add: absorb_tag_cases effective_size_def image_size_def size_gb_eighth
        primary_negative_def)
qed

lemma values_update: "snd ` set (AList.update k v al) \<subseteq> insert v (snd ` set al)"
  by (induction al) (auto simp: image_iff)

lemma absorb_tag_no_zero:
  assumes "absorb_tag t m = Inr m'"
    and "\<not> (0 < effective_size t \<and> effective_size t \<le> 5368709)"
    and "0 \<notin> snd ` set m"
  shows "0 \<notin> snd ` set m'"
proof (cases "m' = m")
  case True
  with assms show ?thesis by simp
next
  case False
  with assms(1) obtain n v where pos: "0 < effective_size t"
    and v: "size_gb (effective_size t) = Inr v" and m': "m' = AList.update n v m"
    by (auto simp: absorb_tag_cases split: option.splits if_splits sum.splits)
  from pos assms(2) have "\<not> effective_size t \<le> 5368709" by simp
  with pos v have "v \<noteq> 0" using size_gb_zero_iff [of "effective_size t"] by auto
  with assms(3) values_update [of n v m] show ?thesis unfolding m' by auto
qed

lemma absorb_no_zero:
  assumes "absorb ts m = Inr m'"
    and "\<forall>t \<in> set ts. \<not> (0 < effective_size t \<and> effective_size t \<le> 5368709)"
    and "0 \<notin> snd ` set m"
  shows "0 \<notin> snd ` set m'"
  using assms
proof (induction ts arbitrary: m)
  case Nil
  then show ?case by simp
next
  case (Cons t ts)
  from Cons.prems(1) obtain m1 where t: "absorb_tag t m = Inr m1" and ts: "absorb ts m1 = Inr m'"
    by (auto split: sum.splits)
  from t Cons.prems have "0 \<notin> snd ` set m1"
    by (intro absorb_tag_no_zero [of t m m1]) simp_all
  with ts Cons.prems show ?case
    by (intro Cons.IH [of m1]) simp_all
qed

text \<open>
  Claim C4, as amended. A record whose effective size is 0 (or negative) is not inserted.
  A key of the aggregated mapping maps to 0 only through a record whose effective size is
  positive and at most 5,368,709 bytes: when no record of a page has such a size,
  absorbing the page into a mapping without zeros gives a mapping without zeros; and a
  named record of such a size is stored with the value 0, its size in gigabytes rounded to
  two decimals.
\<close>

theorem zero_sizes_not_stored:
  "(effective_size t \<le> 0 \<longrightarrow> absorb_tag t m = Inr m) \<and>
   (absorb ts m = Inr m' \<and>
    (\<forall>t \<in> set ts. \<not> (0 < effective_size t \<and> effective_size t \<le> 5368709)) \<and>
    0 \<notin> snd ` set m \<longrightarrow> 0 \<notin> snd ` set m') \<and>
   (\<forall>n. name t = Some n \<and> n \<noteq> [] \<and> 0 < effective_size t \<and> effective_size t \<le> 5368709 \<longrightarrow>
      absorb_tag t m = Inr (AList.update n 0 m))"
proof (intro conjI impI allI)
  assume "effective_size t \<le> 0"
  then show "absorb_tag t m = Inr m"
    by (simp add: absorb_tag_cases split: option.splits)
next
  assume "absorb ts m = Inr m' \<and>
    (\<forall>t \<in> set ts. \<not> (0 < effective_size t \<and> effective_size t \<le> 5368709)) \<and>
    0 \<notin> snd ` set m"
  then show "0 \<notin> snd ` set m'"
    using absorb_no_zero [of ts m m'] by blast
next
  fix n
  assume a: "name t = Some n \<and> n \<noteq> [] \<and> 0 < effective_size t \<and> effective_size t \<le> 5368709"
  then have "size_gb (effective_size t) = Inr 0"
    using size_gb_zero_iff [of "effective_size t"] by simp
  with a show "absorb_tag t m = Inr (AList.update n 0 m)"
    by (simp add: absorb_tag_cases)
qed

text \<open>The claim as stated fails: a tag of one byte is stored with the value 0.\<close>

theorem zero_sizes_not_stored_counterexample:
  "absorb [\<lparr>name = Some ''tiny'', full_size = Some 1, images = None\<rparr>] [] = Inr [(''tiny'', 0)]"
  by (simp add: absorb_tag_cases effective_size_def size_gb_one)

theorem zero_sizes_not_stored_witness:
  "absorb_tag \<lparr>name = Some ''empty'', full_size = Some 0, images = Some []\<rparr> [(''doom'', 3)] =
     Inr [(''doom'', 3)] \<and>
   absorb [\<lparr>name = Some ''doom'', full_size = Some 3221225472, images = None\<rparr>]
     [(''doom'', 3)] = Inr [(''doom'', 3)] \<and>
   0 \<notin> snd ` set [(''doom'', 3 :: rat)] \<and>
   absorb_tag \<lparr>name = Some ''tiny'', full_size = Some 5368709, images = None\<rparr> [] =
     Inr [(''tiny'', 0)]"
  using zero_sizes_not_stored [of "\<lparr>name = Some ''empty'', full_size = Some 0, images = Some []\<rparr>"
      "[(''doom'', 3)]" "[\<lparr>name = Some ''doom'', full_size = Some 3221225472, images = None\<rparr>]"
      "[(''doom'', 3)]"]
    zero_sizes_not_stored [of "\<lparr>name = Some ''tiny'', full_size = Some 5368709, images = None\<rparr>"
      "[]" "[]" "[]"]
  by (simp add: absorb_tag_cases effective_size_def size_gb_3gib)






section \<open>Reconciling what was reconciled before\<close>

text \<open>
  Claim C8, as amended. When the expected ids are exactly the keys of the aggregated
  mapping, and the prior snapshot has the ids and values of the aggregated mapping, the
  final mapping is that mapping and the missing count is 0.
\<close>

theorem reconcile_idempotent:
  assumes "set (map fst aggregated) = id_field ` set games"
    and "map_of prior = map_of aggregated"
  shows "map_of (final_sizes (reconcile games aggregated prior)) = map_of aggregated \<and>
     missing_count (reconcile games aggregated prior) = 0"
proof
  show "map_of (final_sizes (reconcile games aggregated prior)) = map_of aggregated"
  proof
    fix k
    show "map_of (final_sizes (reconcile games aggregated prior)) k = map_of aggregated k"
    proof (cases "k \<in> id_field ` set games")
      case True
      with assms(1) have "k \<in> dom (map_of aggregated)"
        by (simp add: dom_map_of_conv_image_fst)
      then obtain v where "map_of aggregated k = Some v" by auto
      with True show ?thesis
        by (simp add: reconcile_def map_of_reconcile_loop resolved_def)
    next
      case False
      with assms(1) have "k \<notin> dom (map_of aggregated)"
        by (simp add: dom_map_of_conv_image_fst)
      then have "map_of aggregated k = None" by auto
      with False show ?thesis
        by (simp add: reconcile_def map_of_reconcile_loop recon_init_def)
    qed
  qed
  have "\<forall>g \<in> set games. map_of aggregated (id_field g) \<noteq> None"
  proof
    fix g
    assume "g \<in> set games"
    with assms(1) have "id_field g \<in> dom (map_of aggregated)"
      by (simp add: dom_map_of_conv_image_fst)
    then show "map_of aggregated (id_field g) \<noteq> None" by auto
  qed
  then have "filter (\<lambda>g. map_of aggregated (id_field g) = None) games = []"
    by (simp add: filter_empty_conv)
  then show "missing_count (reconcile games aggregated prior) = 0"
    by (simp add: reconcile_def missing_reconcile_loop recon_init_def)
qed

text \<open>The claim as stated fails: the aggregation and the snapshot agree, and an expected id
  that neither of them knows is added with the value 0 and counted as missing.\<close>

theorem reconcile_idempotent_counterexample:
  "\<not> (map_of (final_sizes (reconcile [\<lparr>id_field = ''a''\<rparr>, \<lparr>id_field = ''b''\<rparr>]
           [(''a'', 5)] [(''a'', 5)])) = map_of [(''a'', 5)] \<and>
      missing_count (reconcile [\<lparr>id_field = ''a''\<rparr>, \<lparr>id_field = ''b''\<rparr>]
           [(''a'', 5)] [(''a'', 5)]) = 0)"
  by (simp add: reconcile_def recon_init_def reconcile_game_def Let_def)

theorem reconcile_idempotent_witness:
  "map_of (final_sizes (reconcile [\<lparr>id_field = ''a''\<rparr>, \<lparr>id_field = ''b''\<rparr>]
       [(''b'', 32 / 10), (''a'', 5)] [(''b'', 32 / 10), (''a'', 5)])) =
     map_of [(''b'', 32 / 10), (''a'', 5)] \<and>
   final_sizes (reconcile [\<lparr>id_field = ''a''\<rparr>, \<lparr>id_field = ''b''\<rparr>]
       [(''b'', 32 / 10), (''a'', 5)] [(''b'', 32 / 10), (''a'', 5)]) =
     [(''a'', 5), (''b'', 32 / 10)] \<and>
   missing_count (reconcile [\<lparr>id_field = ''a''\<rparr>, \<lparr>id_field = ''b''\<rparr>]
       [(''b'', 32 / 10), (''a'', 5)] [(''b'', 32 / 10), (''a'', 5)]) = 0"
proof -
  have keys: "set (map fst [(''b'', 32 / 10 :: rat), (''a'', 5)]) =
      id_field ` set [\<lparr>id_field = ''a''\<rparr>, \<lparr>id_field = ''b''\<rparr>]"
    by auto
  have same: "map_of [(''b'', 32 / 10 :: rat), (''a'', 5)] = map_of [(''b'', 32 / 10), (''a'', 5)]"
    by simp
  show ?thesis
    using reconcile_idempotent [OF keys same]
    by (simp add: reconcile_def recon_init_def reconcile_game_def Let_def)
qed

section \<open>Properties of the fetch of a page\<close>

lemma retry_loop_range3:
  "retry_loop net page [0, 1, 2] =
     (case net page 1 of
        Body d \<Rightarrow> ([Print (Retrying 2), Sleep 2, Get page], Got d)
      | Failed \<Rightarrow>
          (case net page 2 of
             Body d \<Rightarrow>
               ([Print (Retrying 2), Sleep 2, Get page,
                 Print (Retrying 4), Sleep 4, Get page], Got d)
           | Failed \<Rightarrow>
               (case net page 3 of
                  Body d \<Rightarrow>
                    ([Print (Retrying 2), Sleep 2, Get page,
                      Print (Retrying 4), Sleep 4, Get page,
                      Print (Retrying 8), Sleep 8, Get page], Got d)
                | Failed \<Rightarrow>
                    ([Print (Retrying 2), Sleep 2, Get page,
                      Print (Retrying 4), Sleep 4, Get page,
                      Print (Retrying 8), Sleep 8, Get page,
                      Print (FailedAfterRetries page)], GaveUp))))"
  by (simp add: Let_def numeral_2_eq_2 numeral_3_eq_3 split: response.splits)

lemma fetch_page_cases:
  "fetch_page net page =
     (case net page 0 of
        Body d \<Rightarrow> ([Get page], Got d)
      | Failed \<Rightarrow>
     (case net page 1 of
        Body d \<Rightarrow>
          ([Get page, Print (ErrorFetching page),
            Print (Retrying 2), Sleep 2, Get page], Got d)
      | Failed \<Rightarrow>
          (case net page 2 of
             Body d \<Rightarrow>
               ([Get page, Print (ErrorFetching page),
                 Print (Retrying 2), Sleep 2, Get page,
                 Print (Retrying 4), Sleep 4, Get page], Got d)
           | Failed \<Rightarrow>
               (case net page 3 of
                  Body d \<Rightarrow>
                    ([Get page, Print (ErrorFetching page),
                      Print (Retrying 2), Sleep 2, Get page,
                      Print (Retrying 4), Sleep 4, Get page,
                      Print (Retrying 8), Sleep 8, Get page], Got d)
                | Failed \<Rightarrow>
                    ([Get page, Print (ErrorFetching page),
                      Print (Retrying 2), Sleep 2, Get page,
                      Print (Retrying 4), Sleep 4, Get page,
                      Print (Retrying 8), Sleep 8, Get page,
                      Print (FailedAfterRetries page)], GaveUp)))))"
  unfolding fetch_page_def retry_loop_range3 by (simp split: response.splits)

text \<open>
  Claim C6. A fetch that fails three times and succeeds at the fourth attempt sleeps 2, 4
  and 8 seconds, in that order, each between two attempts, and returns the body of the
  fourth; no fetch makes more than four attempts, the first and three retries; and when
  all four fail the fetch gives up, having slept 2, 4 and 8 seconds.
\<close>

theorem backoff_sequence:
  "(net page 0 = Failed \<and> net page 1 = Failed \<and> net page 2 = Failed \<and> net page 3 = Body d \<longrightarrow>
      fetch_page net page =
        ([Get page, Print (ErrorFetching page),
          Print (Retrying 2), Sleep 2, Get page,
          Print (Retrying 4), Sleep 4, Get page,
          Print (Retrying 8), Sleep 8, Get page], Got d)) \<and>
   length (gets (fst (fetch_page net page))) \<le> 4 \<and>
   (net page 0 = Failed \<and> net page 1 = Failed \<and> net page 2 = Failed \<and> net page 3 = Failed \<longrightarrow>
      snd (fetch_page net page) = GaveUp \<and>
      gets (fst (fetch_page net page)) = [page, page, page, page] \<and>
      sleeps (fst (fetch_page net page)) = [2, 4, 8])"
  by (simp add: fetch_page_cases split: response.splits)


theorem backoff_sequence_witness:
  "fetch_page (\<lambda>p a. if a < 3 then Failed else Body \<lparr>results = Some [], next_url = None\<rparr>) 7 =
     ([Get 7, Print (ErrorFetching 7),
       Print (Retrying 2), Sleep 2, Get 7,
       Print (Retrying 4), Sleep 4, Get 7,
       Print (Retrying 8), Sleep 8, Get 7], Got \<lparr>results = Some [], next_url = None\<rparr>) \<and>
   snd (fetch_page (\<lambda>p a. Failed) 7) = GaveUp \<and>
   sleeps (fst (fetch_page (\<lambda>p a. Failed) 7)) = [2, 4, 8]"
  using backoff_sequence [of "\<lambda>p a. if a < 3 then Failed else Body \<lparr>results = Some [], next_url = None\<rparr>"
      7 "\<lparr>results = Some [], next_url = None\<rparr>"]
    backoff_sequence [of "\<lambda>p a. Failed" 7]
  by simp

section \<open>Properties of the crawl\<close>

lemma gets_append: "gets (a @ b) = gets a @ gets b"
  by (induction a rule: gets.induct) simp_all

lemma fetch_page_gets:
  "gets (fst (fetch_page net page)) \<in>
     {[page], [page, page], [page, page, page], [page, page, page, page]}"
  by (simp add: fetch_page_cases split: response.splits)

lemma fetch_page_breaks: "snd (fetch_page net page) \<noteq> NoBreak"
  by (simp add: fetch_page_cases split: response.splits)

lemma ascending_from_block:
  assumes "qs \<in> {[p], [p, p], [p, p, p], [p, p, p, p]}"
    and "ascending_from (Suc p) rest"
  shows "ascending_from p (qs @ rest)"
  using assms by auto

lemma crawl_Suc_cases:
  assumes "crawl (Suc fuel) net page data all_tags = Some (evs, res)"
    and "fetch_page net page = (evs0, r)"
  obtains (stop) "evs = evs0"
  | (last) x where "evs = evs0 @ [Print x]"
  | (continue) x d all_tags' evs' where "evs = evs0 @ [Print x] @ [Sleep (1 / 2)] @ evs'"
      and "crawl fuel net (Suc page) (Some d) all_tags' = Some (evs', res)"
  using assms
  by (auto simp: Let_def split: fetched.splits option.splits sum.splits if_splits prod.splits)

lemma crawl_order:
  "crawl fuel net page data all_tags = Some (evs, res) \<Longrightarrow>
     ascending_from page (gets evs) \<and> gets evs \<noteq> []"
proof (induction fuel arbitrary: page data all_tags evs res)
  case 0
  then show ?case by simp
next
  case (Suc fuel)
  obtain evs0 r where f: "fetch_page net page = (evs0, r)" by (cases "fetch_page net page")
  have block: "gets evs0 \<in> {[page], [page, page], [page, page, page], [page, page, page, page]}"
    using fetch_page_gets [of net page] f by simp
  from Suc.prems f show ?case
  proof (cases rule: crawl_Suc_cases)
    case stop
    then show ?thesis using ascending_from_block [OF block, of "[]"] block by auto
  next
    case (last x)
    then show ?thesis
      using ascending_from_block [OF block, of "[]"] block by (auto simp: gets_append)
  next
    case (continue x d all_tags' evs')
    from Suc.IH [OF continue(2)] have "ascending_from (Suc page) (gets evs')" by simp
    then have "ascending_from page (gets evs0 @ gets evs')"
      by (rule ascending_from_block [OF block])
    then show ?thesis using continue(1) block by (auto simp: gets_append)
  qed
qed

lemma crawl_Suc_stop_cases:
  assumes "crawl (Suc fuel) net page data all_tags = Some (evs, Inr m')"
  obtains (stop) evs0 where "evs = evs0 \<or> (\<exists>x. evs = evs0 @ [Print x])"
      and "fst (fetch_page net page) = evs0"
      and "stops_at net page" and "absorb_pages net page 1 all_tags = Inr m'"
  | (continue) evs0 x d m1 evs' where "evs = evs0 @ [Print x] @ [Sleep (1 / 2)] @ evs'"
      and "fst (fetch_page net page) = evs0"
      and "\<not> stops_at net page" and "page_body net page = Some d"
      and "absorb (page_records d) all_tags = Inr m1"
      and "crawl fuel net (Suc page) (Some d) m1 = Some (evs', Inr m')"
proof -
  obtain evs0 r where f: "fetch_page net page = (evs0, r)" by (cases "fetch_page net page")
  have nb: "r \<noteq> NoBreak" using fetch_page_breaks [of net page] f by simp
  show ?thesis
  proof (cases r)
    case GaveUp
    with assms f have "evs = evs0" "m' = all_tags" by simp_all
    moreover have "stops_at net page" using f GaveUp by (simp add: stops_at_def page_body_def)
    moreover have "absorb_pages net page 1 all_tags = Inr all_tags"
      using f GaveUp by (simp add: page_body_def)
    ultimately show ?thesis using f by (intro stop [of evs0]) simp_all
  next
    case NoBreak
    with nb show ?thesis by simp
  next
    case (Got d)
    have body: "page_body net page = Some d" using f Got by (simp add: page_body_def)
    show ?thesis
    proof (cases "page_records d = []")
      case True
      with assms f Got have "evs = evs0" "m' = all_tags"
        by (simp_all add: page_records_def)
      moreover have "stops_at net page" using body True by (simp add: stops_at_def)
      moreover have "absorb_pages net page 1 all_tags = Inr all_tags"
        using body True by simp
      ultimately show ?thesis using f by (intro stop [of evs0]) simp_all
    next
      case False
      from assms f Got False obtain m1 where a: "absorb (page_records d) all_tags = Inr m1"
        by (auto simp: page_records_def Let_def split: sum.splits)
      show ?thesis
      proof (cases "truthy (next_url d)")
        case nx: False
        with assms f Got False a have "\<exists>x. evs = evs0 @ [Print x]" "m' = m1"
          by (auto simp: page_records_def Let_def)
        moreover have "stops_at net page" using body nx by (simp add: stops_at_def)
        moreover have "absorb_pages net page 1 all_tags = Inr m1"
          using body a by simp
        ultimately show ?thesis using f by (intro stop [of evs0]) simp_all
      next
        case nx: True
        with assms f Got False a obtain evs' x where
          "evs = evs0 @ [Print x] @ [Sleep (1 / 2)] @ evs'"
          "crawl fuel net (Suc page) (Some d) m1 = Some (evs', Inr m')"
          by (auto simp: page_records_def Let_def split: option.splits)
        moreover have "\<not> stops_at net page" using body nx False by (simp add: stops_at_def)
        ultimately show ?thesis using f body a by (intro continue [of evs0 x evs' d m1]) simp_all
      qed
    qed
  qed
qed

lemma fetch_page_gets_last:
  "gets (fst (fetch_page net page)) \<noteq> [] \<and> set (gets (fst (fetch_page net page))) = {page}"
  using fetch_page_gets [of net page] by auto

lemma crawl_returns_aggregate:
  "crawl fuel net page data all_tags = Some (evs, Inr m') \<Longrightarrow>
     gets evs \<noteq> [] \<and>
     (\<forall>q \<in> set (gets evs). page \<le> q \<and> q \<le> last (gets evs)) \<and>
     stops_at net (last (gets evs)) \<and>
     (\<forall>q. page \<le> q \<and> q < last (gets evs) \<longrightarrow> \<not> stops_at net q) \<and>
     absorb_pages net page (Suc (last (gets evs)) - page) all_tags = Inr m'"
proof (induction fuel arbitrary: page data all_tags evs)
  case 0
  then show ?case by simp
next
  case (Suc fuel)
  from Suc.prems show ?case
  proof (cases rule: crawl_Suc_stop_cases)
    case (stop evs0)
    have g: "gets evs = gets evs0"
      using stop(1) by (auto simp: gets_append)
    have b: "gets evs0 \<noteq> []" "set (gets evs0) = {page}"
      using fetch_page_gets_last [of net page] stop(2) by simp_all
    then have l: "last (gets evs0) = page"
      using last_in_set [of "gets evs0"] by auto
    have one: "Suc (last (gets evs)) - page = 1" by (simp add: g l)
    have none: "\<forall>q. page \<le> q \<and> q < last (gets evs) \<longrightarrow> \<not> stops_at net q"
      by (auto simp: g l)
    show ?thesis
      unfolding one using b l stop(3,4) none by (simp add: g del: absorb_pages.simps)
  next
    case (continue evs0 x d m1 evs')
    have g: "gets evs = gets evs0 @ gets evs'"
      using continue(1) by (simp add: gets_append)
    have b: "gets evs0 \<noteq> []" "set (gets evs0) = {page}"
      using fetch_page_gets_last [of net page] continue(2) by simp_all
    note ih = Suc.IH [OF continue(6)]
    define L where "L = last (gets evs')"
    have l: "last (gets evs) = L" using ih g by (simp add: L_def)
    have sL: "Suc page \<le> L"
      using ih last_in_set [of "gets evs'"] by (auto simp: L_def)
    have agg: "absorb_pages net page (Suc L - page) all_tags = Inr m'"
    proof -
      have "Suc L - page = Suc (Suc L - Suc page)" using sL by simp
      then show ?thesis
        using continue(4,5) ih by (simp add: L_def)
    qed
    have ns: "\<not> stops_at net q" if "page \<le> q" "q < L" for q
    proof (cases "q = page")
      case True
      then show ?thesis using continue(3) by simp
    next
      case False
      with that have "Suc page \<le> q" by simp
      with that ih show ?thesis by (simp add: L_def)
    qed
    have rng: "\<forall>q \<in> set (gets evs). page \<le> q \<and> q \<le> L"
    proof
      fix q
      assume "q \<in> set (gets evs)"
      then consider "q = page" | "q \<in> set (gets evs')" using b g by auto
      then show "page \<le> q \<and> q \<le> L"
      proof cases
        case 1
        with sL show ?thesis by simp
      next
        case 2
        with ih have "Suc page \<le> q \<and> q \<le> L" by (simp add: L_def)
        then show ?thesis by simp
      qed
    qed
    have st: "stops_at net L" using ih by (simp add: L_def)
    have ne: "gets evs \<noteq> []" using b g by simp
    show ?thesis
      unfolding l using ne rng st ns agg by blast
  qed
qed

lemma crawl_returns:
  "page \<le> L \<Longrightarrow> stops_at net L \<Longrightarrow>
     \<exists>evs res. crawl (Suc (L - page)) net page data all_tags = Some (evs, res)"
proof (induction "L - page" arbitrary: page data all_tags)
  case 0
  then have "L = page" by simp
  with "0.prems" have s: "stops_at net page" by simp
  obtain evs0 r where f: "fetch_page net page = (evs0, r)" by (cases "fetch_page net page")
  have nb: "r \<noteq> NoBreak" using fetch_page_breaks [of net page] f by simp
  from s f nb show ?case
    using "0.hyps"
    by (cases r)
      (auto simp: stops_at_def page_body_def page_records_def Let_def split: sum.splits option.splits)
next
  case (Suc n)
  then have n: "n = L - Suc page" and le: "Suc page \<le> L" by simp_all
  obtain evs0 r where f: "fetch_page net page = (evs0, r)" by (cases "fetch_page net page")
  have nb: "r \<noteq> NoBreak" using fetch_page_breaks [of net page] f by simp
  have rec: "\<exists>evs res. crawl (Suc n) net (Suc page) d m = Some (evs, res)" for d m
    using Suc.hyps(1) [OF n le Suc.prems(2), of d m] n by simp
  have fuel: "Suc (L - page) = Suc (Suc n)" using Suc.hyps(2) by simp
  show ?case
  proof (cases r)
    case GaveUp
    with f show ?thesis by (simp add: fuel)
  next
    case NoBreak
    with nb show ?thesis by simp
  next
    case (Got d)
    show ?thesis
    proof (cases "absorb (page_records d) all_tags")
      case (Inl e)
      with f Got show ?thesis by (auto simp: fuel page_records_def Let_def)
    next
      case (Inr m1)
      from rec [of "Some d" m1] obtain evs' res where
        "crawl (Suc n) net (Suc page) (Some d) m1 = Some (evs', res)" by blast
      with f Got Inr show ?thesis
        unfolding fuel by (auto simp: page_records_def Let_def)
    qed
  qed
qed

text \<open>
  Claim C5. From any page the crawl has reached: when the fetch of the page gives up after
  its retries, or the page has no results, the crawl returns the mapping as it was; when
  the page has results and its \<^verbatim>\<open>next\<close> is falsy, the crawl returns the mapping with
  the page absorbed; in the three cases the only page requested is this one, so the next
  page is not asked for. An empty \<^verbatim>\<open>results\<close> on page 1 gives the empty mapping after
  one request. The pages a crawl requests start at page 1 and go up one page at a time,
  each page being requested (and retried) before the next.

  Over the whole crawl: a crawl that returns a mapping has requested the pages from its
  first page to a last one and no other; the last page requested is one that stops the
  crawl (terminal failure, no records or no next indicator) and no page before it is; and
  the mapping returned is what absorbing these pages in order gives, nothing dropped and
  nothing added. A crawl returns as soon as a page stops it: when page \<open>L\<close> stops the
  crawl, \<open>L - page + 1\<close> iterations are enough.
\<close>

theorem crawl_stops:
  "(\<forall>evs. fetch_page net page = (evs, GaveUp) \<longrightarrow>
      crawl (Suc fuel) net page data all_tags = Some (evs, Inr all_tags) \<and>
      set (gets evs) = {page}) \<and>
   (\<forall>evs d. fetch_page net page = (evs, Got d) \<and> (results d = None \<or> results d = Some []) \<longrightarrow>
      crawl (Suc fuel) net page data all_tags = Some (evs, Inr all_tags) \<and>
      set (gets evs) = {page}) \<and>
   (\<forall>evs d rs all_tags'. fetch_page net page = (evs, Got d) \<and> results d = Some rs \<and> rs \<noteq> [] \<and>
        absorb rs all_tags = Inr all_tags' \<and> \<not> truthy (next_url d) \<longrightarrow>
      crawl (Suc fuel) net page data all_tags =
        Some (evs @ [Print (PageFetched page (length rs) (length all_tags'))], Inr all_tags') \<and>
      set (gets (evs @ [Print (PageFetched page (length rs) (length all_tags'))])) = {page}) \<and>
   (\<forall>nx. net 1 0 = Body \<lparr>results = Some [], next_url = nx\<rparr> \<longrightarrow>
      fetch_all_tags (Suc fuel) net = Some ([Print Fetching, Get 1], Inr [])) \<and>
   (\<forall>n evs res. fetch_all_tags n net = Some (evs, res) \<longrightarrow>
      ascending_from 1 (gets evs) \<and> gets evs \<noteq> []) \<and>
   (\<forall>n evs m'. crawl n net page data all_tags = Some (evs, Inr m') \<longrightarrow>
      gets evs \<noteq> [] \<and>
      (\<forall>q \<in> set (gets evs). page \<le> q \<and> q \<le> last (gets evs)) \<and>
      stops_at net (last (gets evs)) \<and>
      (\<forall>q. page \<le> q \<and> q < last (gets evs) \<longrightarrow> \<not> stops_at net q) \<and>
      absorb_pages net page (Suc (last (gets evs)) - page) all_tags = Inr m') \<and>
   (\<forall>L. page \<le> L \<and> stops_at net L \<longrightarrow>
      (\<exists>evs res. crawl (Suc (L - page)) net page data all_tags = Some (evs, res)))"
proof -
  have steps:
    "(\<forall>evs. fetch_page net page = (evs, GaveUp) \<longrightarrow>
        crawl (Suc fuel) net page data all_tags = Some (evs, Inr all_tags) \<and>
        set (gets evs) = {page}) \<and>
     (\<forall>evs d. fetch_page net page = (evs, Got d) \<and> (results d = None \<or> results d = Some []) \<longrightarrow>
        crawl (Suc fuel) net page data all_tags = Some (evs, Inr all_tags) \<and>
        set (gets evs) = {page}) \<and>
     (\<forall>evs d rs all_tags'. fetch_page net page = (evs, Got d) \<and> results d = Some rs \<and> rs \<noteq> [] \<and>
          absorb rs all_tags = Inr all_tags' \<and> \<not> truthy (next_url d) \<longrightarrow>
        crawl (Suc fuel) net page data all_tags =
          Some (evs @ [Print (PageFetched page (length rs) (length all_tags'))], Inr all_tags') \<and>
        set (gets (evs @ [Print (PageFetched page (length rs) (length all_tags'))])) = {page}) \<and>
     (\<forall>nx. net 1 0 = Body \<lparr>results = Some [], next_url = nx\<rparr> \<longrightarrow>
        fetch_all_tags (Suc fuel) net = Some ([Print Fetching, Get 1], Inr [])) \<and>
     (\<forall>n evs res. fetch_all_tags n net = Some (evs, res) \<longrightarrow>
        ascending_from 1 (gets evs) \<and> gets evs \<noteq> [])"
  proof (intro conjI allI impI)
    fix evs
    assume a: "fetch_page net page = (evs, GaveUp)"
    then show "crawl (Suc fuel) net page data all_tags = Some (evs, Inr all_tags)" by simp
    from a fetch_page_gets [of net page] show "set (gets evs) = {page}" by auto
  next
    fix evs d
    assume a: "fetch_page net page = (evs, Got d) \<and> (results d = None \<or> results d = Some [])"
    then show "crawl (Suc fuel) net page data all_tags = Some (evs, Inr all_tags)" by auto
    from a fetch_page_gets [of net page] show "set (gets evs) = {page}" by auto
  next
    fix evs d rs all_tags'
    assume a: "fetch_page net page = (evs, Got d) \<and> results d = Some rs \<and> rs \<noteq> [] \<and>
          absorb rs all_tags = Inr all_tags' \<and> \<not> truthy (next_url d)"
    then show "crawl (Suc fuel) net page data all_tags =
          Some (evs @ [Print (PageFetched page (length rs) (length all_tags'))], Inr all_tags')"
      by simp
    from a fetch_page_gets [of net page]
    show "set (gets (evs @ [Print (PageFetched page (length rs) (length all_tags'))])) = {page}"
      by (auto simp: gets_append)
  next
    fix nx
    assume "net 1 0 = Body \<lparr>results = Some [], next_url = nx\<rparr>"
    then have "fetch_page net 1 = ([Get 1], Got \<lparr>results = Some [], next_url = nx\<rparr>)"
      by (simp add: fetch_page_cases)
    then show "fetch_all_tags (Suc fuel) net = Some ([Print Fetching, Get 1], Inr [])"
      by (simp add: fetch_all_tags_def)
  next
    fix n evs res
    assume "fetch_all_tags n net = Some (evs, res)"
    then obtain evs' where "crawl n net 1 None [] = Some (evs', res)" and "evs = Print Fetching # evs'"
      by (auto simp: fetch_all_tags_def split: option.splits)
    then show "ascending_from 1 (gets evs)" and "gets evs \<noteq> []"
      using crawl_order [of n net 1 None "[]" evs' res] by simp_all
  qed
  have agg: "\<forall>n evs m'. crawl n net page data all_tags = Some (evs, Inr m') \<longrightarrow>
      gets evs \<noteq> [] \<and>
      (\<forall>q \<in> set (gets evs). page \<le> q \<and> q \<le> last (gets evs)) \<and>
      stops_at net (last (gets evs)) \<and>
      (\<forall>q. page \<le> q \<and> q < last (gets evs) \<longrightarrow> \<not> stops_at net q) \<and>
      absorb_pages net page (Suc (last (gets evs)) - page) all_tags = Inr m'"
    by (intro allI impI) (rule crawl_returns_aggregate)
  have ret: "\<forall>L. page \<le> L \<and> stops_at net L \<longrightarrow>
      (\<exists>evs res. crawl (Suc (L - page)) net page data all_tags = Some (evs, res))"
    by (intro allI impI, elim conjE) (rule crawl_returns)
  note parts = steps [THEN conjunct1] steps [THEN conjunct2, THEN conjunct1]
    steps [THEN conjunct2, THEN conjunct2, THEN conjunct1]
    steps [THEN conjunct2, THEN conjunct2, THEN conjunct2, THEN conjunct1]
    steps [THEN conjunct2, THEN conjunct2, THEN conjunct2, THEN conjunct2] agg ret
  show ?thesis
    by (intro conjI) (fact parts)+
qed

theorem crawl_stops_witness:
  "crawl 1 (\<lambda>p a. Failed) 3 None [(''doom'', 3)] =
     Some ([Get 3, Print (ErrorFetching 3),
            Print (Retrying 2), Sleep 2, Get 3,
            Print (Retrying 4), Sleep 4, Get 3,
            Print (Retrying 8), Sleep 8, Get 3,
            Print (FailedAfterRetries 3)], Inr [(''doom'', 3)]) \<and>
   crawl 1 (\<lambda>p a. Body \<lparr>results = None, next_url = Some ''more''\<rparr>) 3 None [(''doom'', 3)] =
     Some ([Get 3], Inr [(''doom'', 3)]) \<and>
   crawl 1 (\<lambda>p a. Body \<lparr>results = Some [\<lparr>name = Some ''quake'', full_size = Some 3221225472,
              images = None\<rparr>], next_url = None\<rparr>) 3 None [(''doom'', 3)] =
     Some ([Get 3, Print (PageFetched 3 1 2)], Inr [(''doom'', 3), (''quake'', 3)]) \<and>
   fetch_all_tags 1 (\<lambda>p a. Body \<lparr>results = Some [], next_url = Some ''more''\<rparr>) =
     Some ([Print Fetching, Get 1], Inr []) \<and>
   fetch_all_tags 2 (\<lambda>p a. if p = 1
        then Body \<lparr>results = Some [\<lparr>name = Some ''quake'', full_size = Some 3221225472,
              images = None\<rparr>], next_url = Some ''more''\<rparr>
        else Failed) =
     Some ([Print Fetching, Get 1, Print (PageFetched 1 1 1), Sleep (1 / 2),
            Get 2, Print (ErrorFetching 2),
            Print (Retrying 2), Sleep 2, Get 2,
            Print (Retrying 4), Sleep 4, Get 2,
            Print (Retrying 8), Sleep 8, Get 2,
            Print (FailedAfterRetries 2)], Inr [(''quake'', 3)]) \<and>
   ascending_from 1 [1, 2, 2, 2, 2] \<and>
   crawl 2 (\<lambda>p a. if p = 1
        then Body \<lparr>results = Some [\<lparr>name = Some ''quake'', full_size = Some 3221225472,
              images = None\<rparr>], next_url = Some ''more''\<rparr>
        else Body \<lparr>results = Some [\<lparr>name = Some ''doom'', full_size = Some 134217728,
              images = None\<rparr>], next_url = None\<rparr>) 1 None [] =
     Some ([Get 1, Print (PageFetched 1 1 1), Sleep (1 / 2), Get 2, Print (PageFetched 2 1 2)],
           Inr [(''quake'', 3), (''doom'', 3 / 25)]) \<and>
   absorb_pages (\<lambda>p a. if p = 1
        then Body \<lparr>results = Some [\<lparr>name = Some ''quake'', full_size = Some 3221225472,
              images = None\<rparr>], next_url = Some ''more''\<rparr>
        else Body \<lparr>results = Some [\<lparr>name = Some ''doom'', full_size = Some 134217728,
              images = None\<rparr>], next_url = None\<rparr>) 1 2 [] =
     Inr [(''quake'', 3), (''doom'', 3 / 25)]"
proof -
  define two :: net where "two = (\<lambda>p a. if p = 1
        then Body \<lparr>results = Some [\<lparr>name = Some ''quake'', full_size = Some 3221225472,
              images = None\<rparr>], next_url = Some ''more''\<rparr>
        else Body \<lparr>results = Some [\<lparr>name = Some ''doom'', full_size = Some 134217728,
              images = None\<rparr>], next_url = None\<rparr>)"
  have run: "crawl 2 two 1 None [] =
     Some ([Get 1, Print (PageFetched 1 1 1), Sleep (1 / 2), Get 2, Print (PageFetched 2 1 2)],
           Inr [(''quake'', 3), (''doom'', 3 / 25)])"
    by (simp add: two_def fetch_page_cases absorb_tag_cases effective_size_def size_gb_3gib
        size_gb_eighth truthy_def numeral_2_eq_2)
  have stop2: "stops_at two 2" and go1: "\<not> stops_at two 1"
    by (simp_all add: two_def stops_at_def page_body_def page_records_def fetch_page_cases
        truthy_def)
  note whole = crawl_stops [of two 1 0 None "[]", THEN conjunct2, THEN conjunct2,
      THEN conjunct2, THEN conjunct2, THEN conjunct2]
  from whole [THEN conjunct1, rule_format, OF run]
  have "absorb_pages two 1 2 [] = Inr [(''quake'', 3), (''doom'', 3 / 25)]"
    by (simp add: numeral_2_eq_2)
  with run show ?thesis
    unfolding two_def
    using crawl_stops [of "\<lambda>p a. Failed" 3 0 None "[(''doom'', 3)]"]
      crawl_stops [of "\<lambda>p a. Body \<lparr>results = Some [\<lparr>name = Some ''quake'',
              full_size = Some 3221225472, images = None\<rparr>], next_url = None\<rparr>" 3 0 None
        "[(''doom'', 3)]"]
    by (simp add: fetch_page_cases absorb_tag_cases effective_size_def size_gb_3gib truthy_def
        fetch_all_tags_def numeral_2_eq_2)
qed

section \<open>Properties of the run\<close>

lemma keys_reconcile:
  "set (map fst (final_sizes (reconcile games hub ex))) = id_field ` set games"
  by (simp add: reconcile_def keys_reconcile_loop recon_init_def del: set_map)

lemma counts_reconcile: "found_count (reconcile games hub ex) + missing_count (reconcile games hub ex) = length games"
proof -
  have "length (filter (\<lambda>g. map_of hub (id_field g) \<noteq> None) games) +
        length (filter (\<lambda>g. map_of hub (id_field g) = None) games) = length games"
    using sum_length_filter_compl [of "\<lambda>g. map_of hub (id_field g) \<noteq> None" games] by simp
  then show ?thesis
    by (simp add: reconcile_def found_reconcile_loop missing_reconcile_loop recon_init_def)
qed

lemma distinct_reconcile: "distinct (map fst (final_sizes (reconcile games hub ex)))"
  by (simp add: reconcile_def distinct_reconcile_loop recon_init_def)

lemma length_reconcile:
  "length (final_sizes (reconcile games hub ex)) = card (id_field ` set games)"
proof -
  have "card (set (map fst (final_sizes (reconcile games hub ex)))) =
        length (map fst (final_sizes (reconcile games hub ex)))"
    using distinct_reconcile by (rule distinct_card)
  then show ?thesis by (simp only: keys_reconcile length_map)
qed

lemma main_with_games:
  assumes "main fuel (Some games) sizes_json net = Some (evs, Inr r)"
  obtains evs1 hub where "fetch_all_tags fuel net = Some (evs1, Inr hub)"
    and "r = reconcile games hub (case sizes_json of Some d \<Rightarrow> d | None \<Rightarrow> [])"
    and "evs = [Print Banner, Print (FoundGames (card (id_field ` set games)))] @ evs1 @
          [Print (FetchedTags (length hub))] @ warnings r @
          [Print (Summary (length games) (found_count r) (missing_count r))]"
  using assms
  by (auto simp: main_def Let_def split: option.splits sum.splits prod.splits)

text \<open>
  Claim C9. In a run that writes its output, the found count and the missing count add up
  to the number of records of the games list, a record counted each time it occurs, while
  the final mapping has one key for each distinct id: its keys are distinct, they are the
  ids of the list, and there are as many as distinct ids. The result is the reconciliation
  of the list of records itself with what the crawl returned; the set of ids built when
  the file is read only gives the number printed at startup.
\<close>

theorem counts_are_per_record:
  "main fuel (Some games) sizes_json net = Some (evs, Inr r) \<longrightarrow>
     found_count r + missing_count r = length games \<and>
     distinct (map fst (final_sizes r)) \<and>
     set (map fst (final_sizes r)) = id_field ` set games \<and>
     length (final_sizes r) = card (id_field ` set games) \<and>
     (\<exists>evs1 hub. fetch_all_tags fuel net = Some (evs1, Inr hub) \<and>
        r = reconcile games hub (case sizes_json of Some d \<Rightarrow> d | None \<Rightarrow> [])) \<and>
     Print (FoundGames (card (id_field ` set games))) \<in> set evs \<and>
     Print (Summary (length games) (found_count r) (missing_count r)) \<in> set evs"
proof
  assume "main fuel (Some games) sizes_json net = Some (evs, Inr r)"
  then obtain evs1 hub where f: "fetch_all_tags fuel net = Some (evs1, Inr hub)"
    and r: "r = reconcile games hub (case sizes_json of Some d \<Rightarrow> d | None \<Rightarrow> [])"
    and evs: "evs = [Print Banner, Print (FoundGames (card (id_field ` set games)))] @ evs1 @
          [Print (FetchedTags (length hub))] @ warnings r @
          [Print (Summary (length games) (found_count r) (missing_count r))]"
    by (rule main_with_games)
  show "found_count r + missing_count r = length games \<and>
     distinct (map fst (final_sizes r)) \<and>
     set (map fst (final_sizes r)) = id_field ` set games \<and>
     length (final_sizes r) = card (id_field ` set games) \<and>
     (\<exists>evs1 hub. fetch_all_tags fuel net = Some (evs1, Inr hub) \<and>
        r = reconcile games hub (case sizes_json of Some d \<Rightarrow> d | None \<Rightarrow> [])) \<and>
     Print (FoundGames (card (id_field ` set games))) \<in> set evs \<and>
     Print (Summary (length games) (found_count r) (missing_count r)) \<in> set evs"
  proof (intro conjI)
    show "found_count r + missing_count r = length games"
      unfolding r by (rule counts_reconcile)
    show "distinct (map fst (final_sizes r))"
      unfolding r by (rule distinct_reconcile)
    show "set (map fst (final_sizes r)) = id_field ` set games"
      unfolding r by (rule keys_reconcile)
    show "length (final_sizes r) = card (id_field ` set games)"
      unfolding r by (rule length_reconcile)
    show "\<exists>evs1 hub. fetch_all_tags fuel net = Some (evs1, Inr hub) \<and>
        r = reconcile games hub (case sizes_json of Some d \<Rightarrow> d | None \<Rightarrow> [])"
      using f r by blast
    show "Print (FoundGames (card (id_field ` set games))) \<in> set evs"
      unfolding evs by simp
    show "Print (Summary (length games) (found_count r) (missing_count r)) \<in> set evs"
      unfolding evs by simp
  qed
qed


theorem counts_are_per_record_witness:
  "main 1 (Some [\<lparr>id_field = ''a''\<rparr>, \<lparr>id_field = ''a''\<rparr>, \<lparr>id_field = ''b''\<rparr>])
       (Some [(''b'', 32 / 10)])
       (\<lambda>p a. Body \<lparr>results = Some [\<lparr>name = Some ''a'', full_size = Some 3221225472,
              images = None\<rparr>], next_url = None\<rparr>) =
     Some ([Print Banner, Print (FoundGames 2), Print Fetching, Get 1, Print (PageFetched 1 1 1),
            Print (FetchedTags 1), Print (TagNotFound ''b''), Print (Summary 3 2 1)],
           Inr \<lparr>final_sizes = [(''a'', 3), (''b'', 32 / 10)], found_count = 2, missing_count = 1,
                warnings = [Print (TagNotFound ''b'')]\<rparr>) \<and>
   (2::nat) + 1 = length [\<lparr>id_field = ''a''\<rparr>, \<lparr>id_field = ''a''\<rparr>, \<lparr>id_field = ''b''\<rparr>] \<and>
   length [(''a'', 3 :: rat), (''b'', 32 / 10)] =
     card (id_field ` set [\<lparr>id_field = ''a''\<rparr>, \<lparr>id_field = ''a''\<rparr>, \<lparr>id_field = ''b''\<rparr>])"
proof -
  have run: "main 1 (Some [\<lparr>id_field = ''a''\<rparr>, \<lparr>id_field = ''a''\<rparr>, \<lparr>id_field = ''b''\<rparr>])
       (Some [(''b'', 32 / 10)])
       (\<lambda>p a. Body \<lparr>results = Some [\<lparr>name = Some ''a'', full_size = Some 3221225472,
              images = None\<rparr>], next_url = None\<rparr>) =
     Some ([Print Banner, Print (FoundGames 2), Print Fetching, Get 1, Print (PageFetched 1 1 1),
            Print (FetchedTags 1), Print (TagNotFound ''b''), Print (Summary 3 2 1)],
           Inr \<lparr>final_sizes = [(''a'', 3), (''b'', 32 / 10)], found_count = 2, missing_count = 1,
                warnings = [Print (TagNotFound ''b'')]\<rparr>)"
    by (simp add: main_def fetch_all_tags_def fetch_page_cases absorb_tag_cases effective_size_def
        size_gb_3gib truthy_def reconcile_def recon_init_def reconcile_game_def Let_def)
  show ?thesis
    using counts_are_per_record [of 1 "[\<lparr>id_field = ''a''\<rparr>, \<lparr>id_field = ''a''\<rparr>, \<lparr>id_field = ''b''\<rparr>]"
        "Some [(''b'', 32 / 10)]"
        "\<lambda>p a. Body \<lparr>results = Some [\<lparr>name = Some ''a'', full_size = Some 3221225472,
              images = None\<rparr>], next_url = None\<rparr>"
        "[Print Banner, Print (FoundGames 2), Print Fetching, Get 1, Print (PageFetched 1 1 1),
            Print (FetchedTags 1), Print (TagNotFound ''b''), Print (Summary 3 2 1)]"
        "\<lparr>final_sizes = [(''a'', 3), (''b'', 32 / 10)], found_count = 2, missing_count = 1,
                warnings = [Print (TagNotFound ''b'')]\<rparr>"] run
    by simp
qed

lemma crawl_starts_with_get:
  "crawl fuel net page data all_tags = Some (evs, res) \<Longrightarrow> \<exists>evs'. evs = Get page # evs'"
proof (cases fuel)
  case 0
  assume "crawl fuel net page data all_tags = Some (evs, res)"
  with 0 show ?thesis by simp
next
  case (Suc n)
  assume c: "crawl fuel net page data all_tags = Some (evs, res)"
  obtain evs0 r where f: "fetch_page net page = (evs0, r)" by (cases "fetch_page net page")
  then have "\<exists>evs'. evs0 = Get page # evs'"
    by (auto simp: fetch_page_cases split: response.splits)
  moreover from c [unfolded Suc] f have "\<exists>rest. evs = evs0 @ rest"
    by (cases rule: crawl_Suc_cases) auto
  ultimately show ?thesis by auto
qed

text \<open>Without \<^verbatim>\<open>games.json\<close> the run prints its warning, makes the whole crawl, and is
  stopped by an exception: the one of the crawl, or the UnboundLocalError of line 118,
  where \<^verbatim>\<open>games\<close> is read though lines 97 to 99 bound only \<^verbatim>\<open>expected_ids\<close>. No such
  run reaches line 136, where the output is written.\<close>

lemma main_without_games:
  "main fuel None sizes_json net =
     (case fetch_all_tags fuel net of
        None \<Rightarrow> None
      | Some (evs1, Inl e) \<Rightarrow> Some ([Print Banner, Print GamesNotFound] @ evs1, Inl e)
      | Some (evs1, Inr hub_sizes) \<Rightarrow>
          Some ([Print Banner, Print GamesNotFound] @ evs1 @
                [Print (FetchedTags (length hub_sizes))], Inl UnboundLocalError))"
  by (simp add: main_def split: option.splits sum.splits prod.splits)

lemma main_without_games_writes_nothing:
  "main fuel None sizes_json net = Some (evs, out) \<Longrightarrow> \<exists>e. out = Inl e"
  by (auto simp: main_without_games split: option.splits sum.splits prod.splits)

lemma main_without_games_crawls:
  assumes "main fuel None sizes_json net = Some (evs, out)"
  shows "\<exists>rest. evs = [Print Banner, Print GamesNotFound, Print Fetching, Get 1] @ rest"
proof -
  from assms obtain evs1 res where f: "fetch_all_tags fuel net = Some (evs1, res)"
    and e: "\<exists>rest. evs = [Print Banner, Print GamesNotFound] @ evs1 @ rest"
    by (auto simp: main_without_games split: option.splits sum.splits prod.splits)
  from f obtain evs0 where c: "crawl fuel net 1 None [] = Some (evs0, res)"
    and evs1: "evs1 = Print Fetching # evs0"
    by (auto simp: fetch_all_tags_def split: option.splits)
  from c obtain evs' where "evs0 = Get 1 # evs'"
    using crawl_starts_with_get by blast
  with evs1 e show ?thesis by auto
qed

text \<open>
  Claim C7. A missing \<^verbatim>\<open>games.json\<close> should be fatal at once: reported, and the process
  ended with no output written. The code does not end the run there. With the file
  missing and a registry of two pages, the run prints its warning, requests page 1,
  sleeps, requests page 2, prints the number of tags fetched, and only then stops, with
  the UnboundLocalError of line 118; nothing is written.
\<close>

theorem missing_games_file_run:
  "main 2 None None (\<lambda>p a. if p = 1
        then Body \<lparr>results = Some [\<lparr>name = Some ''doom'', full_size = Some 3221225472,
              images = None\<rparr>], next_url = Some ''more''\<rparr>
        else Body \<lparr>results = Some [], next_url = None\<rparr>) =
     Some ([Print Banner, Print GamesNotFound, Print Fetching, Get 1, Print (PageFetched 1 1 1),
            Sleep (1 / 2), Get 2, Print (FetchedTags 1)], Inl UnboundLocalError)"
  by (simp add: main_def fetch_all_tags_def fetch_page_cases absorb_tag_cases effective_size_def
      size_gb_3gib truthy_def numeral_2_eq_2)

end
